theory Spec2Isabelle
  imports Main "HOL-Library.Word" "HOL-Library.Multiset"
begin

unbundle bit_operations_syntax

section \<open>Data model of admin/AdminLog.c\<close>

text \<open>
  A C pointer to a NUL-terminated string is an address; address 0 is the null pointer.
  What a pointer points at is read through the memory \<open>mem\<close> of the surrounding
  program, so that pointer identity (\<open>==\<close>) and content equality (\<open>strcmp\<close>) are
  two different relations, as they are in the source.
\<close>

type_synonym addr = nat

definition NULL :: addr where
  "NULL = 0"

definition MAX_SUBSCRIPTIONS :: nat where
  "MAX_SUBSCRIPTIONS = 64"

definition FILENAME_COUNT :: nat where
  "FILENAME_COUNT = 32"

text \<open>
  Modelled from the spec: \<open>enum Log_Level\<close> is declared in util/Log.h, which is not part of
  the sources at hand. The source names the levels KEYS, DEBUG, INFO, WARN, ERROR and
  CRITICAL and the value \<open>Log_Level_INVALID\<close>; the spec asks for a total order with a
  name/value mapping. \<open>Log_Level_val\<close> is the enumerator's integer value, which is what
  the C comparison \<open>logLevel < subscription->level\<close> compares.
\<close>

datatype Log_Level =
    Log_Level_KEYS
  | Log_Level_DEBUG
  | Log_Level_INFO
  | Log_Level_WARN
  | Log_Level_ERROR
  | Log_Level_CRITICAL
  | Log_Level_INVALID

fun Log_Level_val :: "Log_Level \<Rightarrow> nat" where
  "Log_Level_val Log_Level_KEYS = 0"
| "Log_Level_val Log_Level_DEBUG = 1"
| "Log_Level_val Log_Level_INFO = 2"
| "Log_Level_val Log_Level_WARN = 3"
| "Log_Level_val Log_Level_ERROR = 4"
| "Log_Level_val Log_Level_CRITICAL = 5"
| "Log_Level_val Log_Level_INVALID = 6"

text \<open>Modelled from the spec: \<open>Log_levelForName\<close> and \<open>Log_nameForLevel\<close> of util/Log.h.\<close>

definition Log_levelForName :: "string \<Rightarrow> Log_Level" where
  "Log_levelForName n =
     (if n = ''KEYS'' then Log_Level_KEYS
      else if n = ''DEBUG'' then Log_Level_DEBUG
      else if n = ''INFO'' then Log_Level_INFO
      else if n = ''WARN'' then Log_Level_WARN
      else if n = ''ERROR'' then Log_Level_ERROR
      else if n = ''CRITICAL'' then Log_Level_CRITICAL
      else Log_Level_INVALID)"

fun Log_nameForLevel :: "Log_Level \<Rightarrow> string" where
  "Log_nameForLevel Log_Level_KEYS = ''KEYS''"
| "Log_nameForLevel Log_Level_DEBUG = ''DEBUG''"
| "Log_nameForLevel Log_Level_INFO = ''INFO''"
| "Log_nameForLevel Log_Level_WARN = ''WARN''"
| "Log_nameForLevel Log_Level_ERROR = ''ERROR''"
| "Log_nameForLevel Log_Level_CRITICAL = ''CRITICAL''"
| "Log_nameForLevel Log_Level_INVALID = ''INVALID''"

text \<open>
  \<open>struct Subscription\<close>. \<open>lineNum\<close> is the bit field \<open>int lineNum : 31\<close>, held here as
  the integer it denotes; \<open>txid\<close> is the content of the cloned \<open>String\<close>; \<open>alloc\<close> is the
  handle of the subscription's own allocator.
\<close>

record Subscription =
  level :: Log_Level
  internalName :: bool
  lineNum :: int
  filePtr :: addr
  txid :: string
  streamId :: "64 word"
  alloc :: nat

text \<open>
  \<open>struct AdminLog\<close>. A C array is a total map from index to element; the source reads and
  writes \<open>subscriptions\<close> only below \<open>subscriptionCount\<close> (at most 64) and \<open>fileNames\<close>
  only below 32.
\<close>

record AdminLog =
  subscriptions :: "nat \<Rightarrow> Subscription"
  subscriptionCount :: nat
  fileNames :: "nat \<Rightarrow> addr"

text \<open>A benc \<open>Dict\<close>: keys with integer or string values, in insertion order.\<close>

datatype Object = Int_OBJ int | String_OBJ string

type_synonym Dict = "(string \<times> Object) list"

definition Dict_getString :: "Dict \<Rightarrow> string \<Rightarrow> string option" where
  "Dict_getString d k = (case map_of d k of Some (String_OBJ s) \<Rightarrow> Some s | _ \<Rightarrow> None)"

definition Dict_getInt :: "Dict \<Rightarrow> string \<Rightarrow> int option" where
  "Dict_getInt d k = (case map_of d k of Some (Int_OBJ n) \<Rightarrow> Some n | _ \<Rightarrow> None)"

text \<open>
  Everything the functions of the file touch besides their arguments:
  \<^item> \<open>adminLog\<close>: the \<open>struct AdminLog\<close> behind \<open>vcontext\<close> / \<open>genericLog\<close>;
  \<^item> \<open>mem\<close>: the content of the C string at each address;
  \<^item> \<open>heapTop\<close>: the address the next \<open>String_new\<close> returns (addresses are never reused);
  \<^item> \<open>nextAlloc\<close>: the handle the next \<open>alloc->child\<close> returns;
  \<^item> \<open>freed\<close>: the allocators \<open>alloc->free\<close> was called on, in call order;
  \<^item> \<open>sent\<close>: the calls of \<open>Admin_sendMessage(message, txid, admin)\<close>, in call order;
  \<^item> \<open>clock\<close>, \<open>timeCalls\<close>: the k-th call of \<open>time()\<close> returns \<open>clock k\<close>.
\<close>

record World =
  adminLog :: AdminLog
  mem :: "addr \<Rightarrow> string"
  heapTop :: addr
  nextAlloc :: nat
  freed :: "nat list"
  sent :: "(Dict \<times> string) list"
  clock :: "nat \<Rightarrow> int"
  timeCalls :: nat

section \<open>The match engine: isMatch\<close>

text \<open>
  \<open>strcmp\<close>: the source only tests the result against zero, so the sign of a non-zero
  result is not modelled.
\<close>

definition strcmp :: "string \<Rightarrow> string \<Rightarrow> int" where
  "strcmp a b = (if a = b then 0 else 1)"

text \<open>
  The loop of lines 82 to 91, from index \<open>i\<close> on: stop at a slot that holds the pointer
  \<open>name\<close>; at an empty slot store \<open>name\<close>, clear the slot after it (modulo the table size;
  the source writes \<open>FILE_NAME_COUNT\<close> there, the only table size there is being
  \<open>FILENAME_COUNT\<close>) and stop; otherwise go on. The loop ends after slot 31.
\<close>

function internFileName :: "nat \<Rightarrow> addr \<Rightarrow> (nat \<Rightarrow> addr) \<Rightarrow> (nat \<Rightarrow> addr)" where
  "internFileName i name fns =
     (if i < FILENAME_COUNT then
        (if fns i = name then fns
         else if fns i = NULL then (fns(i := name))((i + 1) mod FILENAME_COUNT := NULL)
         else internFileName (i + 1) name fns)
      else fns)"
  by pat_completeness auto
termination
  by (relation "measure (\<lambda>(i, name, fns). FILENAME_COUNT - i)") auto

declare internFileName.simps [simp del]

text \<open>
  \<open>isMatch\<close> returns its verdict together with the subscription and the table as it leaves
  them. The event's \<open>line\<close> is a \<open>uint32_t\<close>; comparing it with the \<open>int\<close> bit field converts
  the bit field to \<open>uint32_t\<close>. The source reads the bit field as \<open>subscription->line\<close>; the
  struct's only line field is \<open>lineNum\<close>.
\<close>

definition isMatch ::
  "(addr \<Rightarrow> string) \<Rightarrow> Subscription \<Rightarrow> (nat \<Rightarrow> addr) \<Rightarrow> Log_Level \<Rightarrow> addr \<Rightarrow> 32 word
     \<Rightarrow> bool \<times> Subscription \<times> (nat \<Rightarrow> addr)" where
  "isMatch m sub fns logLevel fileName line =
     (if filePtr sub \<noteq> NULL \<and> internalName sub \<and> fileName \<noteq> filePtr sub then (False, sub, fns)
      else if filePtr sub \<noteq> NULL \<and> \<not> internalName sub \<and> strcmp (m fileName) (m (filePtr sub)) \<noteq> 0
        then (False, sub, fns)
      else
        let (sub', fns') =
              (if filePtr sub \<noteq> NULL \<and> \<not> internalName sub
               then (sub\<lparr>filePtr := fileName, internalName := True\<rparr>, internFileName 0 fileName fns)
               else (sub, fns))
        in if Log_Level_val logLevel < Log_Level_val (level sub') then (False, sub', fns')
           else if lineNum sub' \<noteq> 0 \<and> line \<noteq> word_of_int (lineNum sub') then (False, sub', fns')
           else (True, sub', fns'))"

section \<open>The event encoder: makeLogMessage\<close>

text \<open>
  \<open>makeLogMessage\<close> reads the clock once (\<open>time(&now)\<close>) and builds the push message.
  \<open>txt\<close> is the text \<open>String_vprintf\<close> makes of the format string and its arguments;
  \<open>streamNum\<close> is the function's \<open>uint32_t streamNum\<close> parameter.
\<close>

definition makeLogMessage ::
  "World \<Rightarrow> Log_Level \<Rightarrow> addr \<Rightarrow> 32 word \<Rightarrow> string \<Rightarrow> 32 word \<Rightarrow> Dict \<times> World" where
  "makeLogMessage w logLevel fileName line txt streamNum =
     (let now = clock w (timeCalls w) in
      ([(''streamId'', Int_OBJ (uint streamNum)),
        (''time'', Int_OBJ now),
        (''level'', String_OBJ (Log_nameForLevel logLevel)),
        (''file'', String_OBJ (mem w fileName)),
        (''line'', Int_OBJ (uint line)),
        (''message'', String_OBJ txt)],
       w\<lparr>timeCalls := timeCalls w + 1\<rparr>))"

section \<open>The logging entry point: doLog\<close>

text \<open>
  One pass of the body of the loop of \<open>doLog\<close> at index \<open>i\<close>. \<open>message\<close> is the local
  variable \<open>Dict* message\<close>, \<open>None\<close> while it is the null pointer. The call of
  \<open>makeLogMessage\<close> in the source passes seven arguments to the eight parameters and has
  none for \<open>streamNum\<close>; the model takes the value that parameter receives as \<open>streamNum\<close>,
  whatever it is.
\<close>

definition doLog_body ::
  "nat \<Rightarrow> Log_Level \<Rightarrow> addr \<Rightarrow> 32 word \<Rightarrow> string \<Rightarrow> 32 word \<Rightarrow> Dict option \<times> World
     \<Rightarrow> Dict option \<times> World" where
  "doLog_body i logLevel fileName line txt streamNum s =
     (let message = fst s; w = snd s; lg = adminLog w;
          r = isMatch (mem w) (subscriptions lg i) (fileNames lg) logLevel fileName line;
          w1 = w\<lparr>adminLog := lg\<lparr>subscriptions := (subscriptions lg)(i := fst (snd r)),
                                     fileNames := snd (snd r)\<rparr>\<rparr>
      in if fst r then
           (let b = (case message of
                       None \<Rightarrow> makeLogMessage w1 logLevel fileName line txt streamNum
                     | Some d \<Rightarrow> (d, w1));
                w2 = snd b
            in (Some (fst b),
                w2\<lparr>sent := sent w2 @ [(fst b, txid (subscriptions (adminLog w2) i))]\<rparr>))
         else (message, w1))"

function doLog_loop ::
  "nat \<Rightarrow> Log_Level \<Rightarrow> addr \<Rightarrow> 32 word \<Rightarrow> string \<Rightarrow> 32 word \<Rightarrow> Dict option \<times> World
     \<Rightarrow> Dict option \<times> World" where
  "doLog_loop i logLevel fileName line txt streamNum s =
     (if i < subscriptionCount (adminLog (snd s))
      then doLog_loop (i + 1) logLevel fileName line txt streamNum
             (doLog_body i logLevel fileName line txt streamNum s)
      else s)"
  by pat_completeness auto
termination
  by (relation "measure (\<lambda>(i, logLevel, fileName, line, txt, streamNum, s).
                   subscriptionCount (adminLog (snd s)) - i)")
     (auto simp: doLog_body_def makeLogMessage_def Let_def split: option.splits)

declare doLog_loop.simps [simp del]

definition doLog :: "Log_Level \<Rightarrow> addr \<Rightarrow> 32 word \<Rightarrow> string \<Rightarrow> 32 word \<Rightarrow> World \<Rightarrow> World" where
  "doLog logLevel fileName line txt streamNum w =
     snd (doLog_loop 0 logLevel fileName line txt streamNum (None, w))"

section \<open>Stream ids as hex strings\<close>

text \<open>
  Modelled from the spec: \<open>Hex_encode\<close> and \<open>Hex_decode\<close> of util/Hex.h, which is not part
  of the sources at hand. The spec has the stream id rendered as lowercase hex of fixed
  width, 16 characters for the 8 bytes, and read back from its hex form; a string with a
  character that is no hex digit does not decode. \<open>Hex_decode\<close> gives the decoded bytes,
  their number being the C function's return value.
\<close>

definition hexDigit :: "nat \<Rightarrow> char" where
  "hexDigit n = ''0123456789abcdef'' ! n"

definition hexValue :: "char \<Rightarrow> nat option" where
  "hexValue c =
     (let n = (of_char c :: nat) in
      if 48 \<le> n \<and> n \<le> 57 then Some (n - 48)
      else if 97 \<le> n \<and> n \<le> 102 then Some (n - 87)
      else if 65 \<le> n \<and> n \<le> 70 then Some (n - 55)
      else None)"

fun Hex_encode :: "8 word list \<Rightarrow> string" where
  "Hex_encode [] = []"
| "Hex_encode (b # bs) = hexDigit (unat b div 16) # hexDigit (unat b mod 16) # Hex_encode bs"

fun Hex_decode :: "string \<Rightarrow> 8 word list option" where
  "Hex_decode [] = Some []"
| "Hex_decode [c] = None"
| "Hex_decode (c # d # cs) =
     (case (hexValue c, hexValue d, Hex_decode cs) of
        (Some h, Some l, Some bs) \<Rightarrow> Some (of_nat (16 * h + l) # bs)
      | _ \<Rightarrow> None)"

text \<open>
  The eight bytes of a \<open>uint64_t\<close> in memory, lowest address first, and the value of eight
  such bytes (the byte order of a little-endian host; both directions use the same one).
\<close>

fun le_bytes :: "nat \<Rightarrow> 64 word \<Rightarrow> 8 word list" where
  "le_bytes 0 w = []"
| "le_bytes (Suc n) w = ucast w # le_bytes n (drop_bit 8 w)"

definition bytes_of_uint64 :: "64 word \<Rightarrow> 8 word list" where
  "bytes_of_uint64 w = le_bytes 8 w"

definition uint64_of_bytes :: "8 word list \<Rightarrow> 64 word" where
  "uint64_of_bytes bs = foldr (\<lambda>b acc. ucast b OR push_bit 8 acc) bs 0"

section \<open>The administrative operations: subscribe and unsubscribe\<close>

text \<open>\<open>Admin_sendMessage(message, txid, admin)\<close>.\<close>

definition Admin_sendMessage :: "Dict \<Rightarrow> string \<Rightarrow> World \<Rightarrow> World" where
  "Admin_sendMessage message txid' w = w\<lparr>sent := sent w @ [(message, txid')]\<rparr>"

text \<open>The reply both operations end with: a \<open>Dict\<close> with the one key \<open>error\<close>.\<close>

definition sendError :: "string \<Rightarrow> string \<Rightarrow> World \<Rightarrow> World" where
  "sendError err txid' w = Admin_sendMessage [(''error'', String_OBJ err)] txid' w"

text \<open>
  The three error texts of \<open>subscribe\<close>. The first lists the levels compiled in (the
  \<open>#ifdef\<close>s of lines 164 to 178); here all of them are.
\<close>

definition InvalidLevel :: string where
  "InvalidLevel = ''The provided log level is invalid, please specify one of ''
                    @ ''[KEYS, DEBUG, INFO, WARN, ERROR, CRITICAL]''"

definition InvalidLine :: string where
  "InvalidLine = ''Invalid line number, must be greater than or equal to 1''"

definition CapacityExceeded :: string where
  "CapacityExceeded = ''Max subscription count reached.''"

text \<open>The two error texts of \<open>unsubscribe\<close>.\<close>

definition InvalidStreamId :: string where
  "InvalidStreamId = ''Invalid streamId.''"

definition NotFound :: string where
  "NotFound = ''No such subscription.''"

text \<open>The bytes of a \<open>String\<close> read as a C string: up to the first NUL.\<close>

definition cstring :: "string \<Rightarrow> string" where
  "cstring bytes = takeWhile (\<lambda>c. c \<noteq> CHR 0x00) bytes"

text \<open>
  Storing an \<open>int64_t\<close> in the bit field \<open>int lineNum : 31\<close> keeps its low 31 bits, read as
  a signed number.
\<close>

definition bitfield31 :: "int \<Rightarrow> int" where
  "bitfield31 l = (l + 2 ^ 30) mod 2 ^ 31 - 2 ^ 30"

text \<open>
  The loop of lines 190 to 196, from index \<open>i\<close> on: the value of \<open>i\<close> when the loop is
  left, which is the first slot from \<open>i\<close> that is not empty and holds a name with the
  content \<open>name\<close>, or \<open>FILENAME_COUNT\<close> when there is none.
\<close>

function subscribe_findName :: "nat \<Rightarrow> string \<Rightarrow> (addr \<Rightarrow> string) \<Rightarrow> (nat \<Rightarrow> addr) \<Rightarrow> nat" where
  "subscribe_findName i name m fns =
     (if i < FILENAME_COUNT then
        (if fns i \<noteq> NULL \<and> strcmp (m (fns i)) name = 0 then i
         else subscribe_findName (i + 1) name m fns)
      else i)"
  by pat_completeness auto
termination
  by (relation "measure (\<lambda>(i, name, m, fns). FILENAME_COUNT - i)") auto

declare subscribe_findName.simps [simp del]

text \<open>
  \<open>subscribe\<close>. \<open>rnd\<close> is the eight bytes \<open>randombytes\<close> delivers, as the \<open>uint64_t\<close> they
  make. \<open>String_new\<close> returns the address after \<open>heapTop\<close>, which is never the null
  pointer. Without a \<open>file\<close> argument the source leaves \<open>sub->internalName\<close> as the slot
  had it. The source reads the table entry as \<open>fileNames[i]\<close> in line 192; the only table
  is \<open>log->fileNames\<close>.
\<close>

definition subscribe :: "Dict \<Rightarrow> string \<Rightarrow> 64 word \<Rightarrow> World \<Rightarrow> World" where
  "subscribe args txid' rnd w =
     (let lg = adminLog w;
          levelName = Dict_getString args ''level'';
          level' = (case levelName of Some n \<Rightarrow> Log_levelForName n | None \<Rightarrow> Log_Level_DEBUG);
          lineNumPtr = Dict_getInt args ''line'';
          fileStr = Dict_getString args ''file''
      in if level' = Log_Level_INVALID then sendError InvalidLevel txid' w
         else if (case lineNumPtr of Some l \<Rightarrow> l < 1 | None \<Rightarrow> False)
           then sendError InvalidLine txid' w
         else if MAX_SUBSCRIPTIONS \<le> subscriptionCount lg then sendError CapacityExceeded txid' w
         else
           (let n = subscriptionCount lg;
                sub0 = (subscriptions lg n)\<lparr>level := level', alloc := nextAlloc w\<rparr>;
                w1 = w\<lparr>nextAlloc := nextAlloc w + 1\<rparr>;
                r = (case fileStr of
                       None \<Rightarrow> (sub0\<lparr>filePtr := NULL\<rparr>, w1)
                     | Some bytes \<Rightarrow>
                         (let i = subscribe_findName 0 (cstring bytes) (mem w1) (fileNames lg)
                          in if i = FILENAME_COUNT
                             then (sub0\<lparr>internalName := False, filePtr := heapTop w1 + 1\<rparr>,
                                   w1\<lparr>mem := (mem w1)(heapTop w1 + 1 := cstring bytes),
                                      heapTop := heapTop w1 + 1\<rparr>)
                             else (sub0\<lparr>internalName := True, filePtr := fileNames lg i\<rparr>, w1)));
                sub2 = (fst r)\<lparr>lineNum := (case lineNumPtr of Some l \<Rightarrow> bitfield31 l | None \<Rightarrow> 0),
                               txid := txid', streamId := rnd\<rparr>;
                response = [(''error'', String_OBJ ''none''),
                            (''streamId'', String_OBJ (Hex_encode (bytes_of_uint64 rnd)))];
                w3 = Admin_sendMessage response txid' (snd r)
            in w3\<lparr>adminLog := lg\<lparr>subscriptions := (subscriptions lg)(n := sub2),
                                   subscriptionCount := n + 1\<rparr>\<rparr>))"

text \<open>
  The loop of lines 233 to 245, from index \<open>i\<close> on, with the error text it leaves in
  \<open>error\<close>. \<open>Bits_memcpyConst\<close> copies the whole struct of the last live slot.
\<close>

function unsubscribe_loop :: "nat \<Rightarrow> 64 word \<Rightarrow> World \<Rightarrow> string \<times> World" where
  "unsubscribe_loop i sid w =
     (if i < subscriptionCount (adminLog w) then
        (if sid = streamId (subscriptions (adminLog w) i) then
           (let lg = adminLog w;
                w1 = w\<lparr>freed := freed w @ [alloc (subscriptions lg i)]\<rparr>;
                n = subscriptionCount lg - 1;
                subs = (if n \<noteq> 0 then (subscriptions lg)(i := subscriptions lg n)
                        else subscriptions lg)
            in (''none'', w1\<lparr>adminLog := lg\<lparr>subscriptions := subs, subscriptionCount := n\<rparr>\<rparr>))
         else unsubscribe_loop (i + 1) sid w)
      else (NotFound, w))"
  by pat_completeness auto
termination
  by (relation "measure (\<lambda>(i, sid, w). subscriptionCount (adminLog w) - i)") auto

declare unsubscribe_loop.simps [simp del]

text \<open>
  \<open>unsubscribe\<close>. \<open>streamIdHex\<close> is the \<open>streamId\<close> argument, which the dispatcher requires
  to be there (\<open>.required = 1\<close>) before it calls the handler.
\<close>

definition unsubscribe :: "string \<Rightarrow> string \<Rightarrow> World \<Rightarrow> World" where
  "unsubscribe streamIdHex txid' w =
     (let r = (if length streamIdHex \<noteq> 16 then (InvalidStreamId, w)
               else (case Hex_decode streamIdHex of
                       None \<Rightarrow> (InvalidStreamId, w)
                     | Some bs \<Rightarrow>
                         if length bs \<noteq> 8 then (InvalidStreamId, w)
                         else unsubscribe_loop 0 (uint64_of_bytes bs) w))
      in sendError (fst r) txid' (snd r))"

section \<open>Construction and runs\<close>

text \<open>
  \<open>AdminLog_registerNew\<close> clones a struct whose subscriptions, count and table are all
  zero. The memory \<open>m\<close>, its highest address in use \<open>hi\<close> and the clock are the host
  program's.
\<close>

definition zeroSubscription :: Subscription where
  "zeroSubscription = \<lparr>level = Log_Level_KEYS, internalName = False, lineNum = 0,
                         filePtr = NULL, txid = [], streamId = 0, alloc = 0\<rparr>"

definition AdminLog_registerNew :: "(addr \<Rightarrow> string) \<Rightarrow> addr \<Rightarrow> (nat \<Rightarrow> int) \<Rightarrow> World" where
  "AdminLog_registerNew m hi clk =
     \<lparr>adminLog = \<lparr>subscriptions = (\<lambda>i. zeroSubscription), subscriptionCount = 0,
                   fileNames = (\<lambda>i. NULL)\<rparr>,
       mem = m, heapTop = hi, nextAlloc = 1, freed = [], sent = [],
       clock = clk, timeCalls = 0\<rparr>"

text \<open>The calls the logger receives, and their effect in the order they arrive.\<close>

datatype Call =
    Subscribe Dict string "64 word"
  | Unsubscribe string string
  | DoLog Log_Level addr "32 word" string "32 word"

fun call :: "Call \<Rightarrow> World \<Rightarrow> World" where
  "call (Subscribe args txid' rnd) w = subscribe args txid' rnd w"
| "call (Unsubscribe streamIdHex txid') w = unsubscribe streamIdHex txid' w"
| "call (DoLog logLevel fileName line txt streamNum) w = doLog logLevel fileName line txt streamNum w"

definition run :: "Call list \<Rightarrow> World \<Rightarrow> World" where
  "run cs w = fold call cs w"

section \<open>Notions used to state the properties\<close>

text \<open>The \<open>error\<close> entry of the reply sent last, if any.\<close>

definition lastReplyError :: "World \<Rightarrow> string option" where
  "lastReplyError w = (if sent w = [] then None else Dict_getString (fst (last (sent w))) ''error'')"

text \<open>The condition under which \<open>subscribe\<close> reaches its last branch (lines 184 to 215).\<close>

definition subscribeAccepts :: "Dict \<Rightarrow> World \<Rightarrow> bool" where
  "subscribeAccepts args w \<longleftrightarrow>
     (case Dict_getString args ''level'' of Some n \<Rightarrow> Log_levelForName n \<noteq> Log_Level_INVALID | None \<Rightarrow> True)
     \<and> (case Dict_getInt args ''line'' of Some l \<Rightarrow> 1 \<le> l | None \<Rightarrow> True)
     \<and> subscriptionCount (adminLog w) < MAX_SUBSCRIPTIONS"

text \<open>The live subscriptions: the slots below \<open>subscriptionCount\<close>, with their multiplicity.\<close>

definition liveSubscriptions :: "World \<Rightarrow> Subscription multiset" where
  "liveSubscriptions w = mset (map (subscriptions (adminLog w)) [0..<subscriptionCount (adminLog w)])"

text \<open>
  A series of \<open>subscribe\<close> calls, each with its arguments, transaction id and random
  bytes, and whether every one of them is answered with \<open>error: none\<close>.
\<close>

fun subscribeAll :: "(Dict \<times> string \<times> 64 word) list \<Rightarrow> World \<Rightarrow> World" where
  "subscribeAll [] w = w"
| "subscribeAll ((args, t, rnd) # cs) w = subscribeAll cs (subscribe args t rnd w)"

fun subscribesSucceed :: "(Dict \<times> string \<times> 64 word) list \<Rightarrow> World \<Rightarrow> bool" where
  "subscribesSucceed [] w = True"
| "subscribesSucceed ((args, t, rnd) # cs) w =
     (lastReplyError (subscribe args t rnd w) = Some ''none''
      \<and> subscribesSucceed cs (subscribe args t rnd w))"

text \<open>
  A host program for the examples: the string \<open>net.c\<close> stands at the addresses 1 and 33
  (the same file name in two translation units), every other address \<open>p\<close> holds a name of
  its own, the highest address in use is 100 and the clock starts at 1000.
\<close>

definition exampleMem :: "addr \<Rightarrow> string" where
  "exampleMem p = (if p = 1 \<or> p = 33 then ''net.c'' else replicate p (CHR ''a'') @ ''.c'')"

definition exampleWorld :: World where
  "exampleWorld = AdminLog_registerNew exampleMem 100 (\<lambda>k. 1000 + int k)"

text \<open>Two subscribers to warnings from \<open>net.c\<close>, with the stream ids 1 and 2.\<close>

definition twoSubscribers :: World where
  "twoSubscribers =
     run [Subscribe [(''level'', String_OBJ ''WARN''), (''file'', String_OBJ ''net.c'')] ''tx1'' 1,
          Subscribe [(''level'', String_OBJ ''WARN''), (''file'', String_OBJ ''net.c'')] ''tx2'' 2]
       exampleWorld"

text \<open>
  The table has an empty slot; the pointer \<open>p\<close> is an entry of the table.
\<close>

definition hasEmptySlot :: "(nat \<Rightarrow> addr) \<Rightarrow> bool" where
  "hasEmptySlot fns \<longleftrightarrow> (\<exists>q<FILENAME_COUNT. fns q = NULL)"

definition inTable :: "addr \<Rightarrow> (nat \<Rightarrow> addr) \<Rightarrow> bool" where
  "inTable p fns \<longleftrightarrow> (\<exists>q<FILENAME_COUNT. fns q = p)"

text \<open>
  What holds in every state the logger reaches when the host program's file names are the
  addresses \<open>S\<close> of its static memory \<open>m\<close> (up to the address \<open>hi\<close>): the names held
  by internal subscriptions and by the table are among \<open>S\<close>, the static memory is as it
  was, and the table has an empty slot.
\<close>

definition internedNames :: "addr set \<Rightarrow> (addr \<Rightarrow> string) \<Rightarrow> addr \<Rightarrow> World \<Rightarrow> bool" where
  "internedNames S m hi w \<longleftrightarrow>
     (\<forall>i < subscriptionCount (adminLog w).
         internalName (subscriptions (adminLog w) i) \<and> filePtr (subscriptions (adminLog w) i) \<noteq> NULL
           \<longrightarrow> filePtr (subscriptions (adminLog w) i) \<in> S)
     \<and> (\<forall>q<FILENAME_COUNT. fileNames (adminLog w) q \<noteq> NULL \<longrightarrow> fileNames (adminLog w) q \<in> S)
     \<and> (\<forall>p\<le>hi. mem w p = m p)
     \<and> hi \<le> heapTop w
     \<and> hasEmptySlot (fileNames (adminLog w))"

text \<open>
  Calls that make the table wrap around. A first subscriber asks for \<open>net.c\<close> and an
  event from address 1 promotes it; then, for each of the names at the addresses 2 to 32,
  a subscriber asks for that name, an event from that address promotes it, and it
  unsubscribes. \<open>wrapInv k\<close> describes the state after the first \<open>k\<close> names. After
  that, a second subscriber asks for \<open>net.c\<close>.
\<close>

definition cycleCalls :: "nat \<Rightarrow> Call list" where
  "cycleCalls p =
     [Subscribe [(''file'', String_OBJ (exampleMem p))] ''tX'' (of_nat p),
      DoLog Log_Level_ERROR p 10 ''m'' 0,
      Unsubscribe (Hex_encode (bytes_of_uint64 (of_nat p))) ''tX'']"

definition wrapAround :: "Call list" where
  "wrapAround =
     [Subscribe [(''file'', String_OBJ ''net.c'')] ''tA'' 500, DoLog Log_Level_ERROR 1 10 ''m'' 0]
     @ concat (map cycleCalls [2..<32]) @ cycleCalls 32"

definition wrapInv :: "nat \<Rightarrow> World \<Rightarrow> bool" where
  "wrapInv k w \<longleftrightarrow>
     subscriptionCount (adminLog w) = 1
     \<and> internalName (subscriptions (adminLog w) 0)
     \<and> filePtr (subscriptions (adminLog w) 0) = 1
     \<and> streamId (subscriptions (adminLog w) 0) = 500
     \<and> level (subscriptions (adminLog w) 0) = Log_Level_DEBUG
     \<and> lineNum (subscriptions (adminLog w) 0) = 0
     \<and> (\<forall>j<FILENAME_COUNT. fileNames (adminLog w) j = (if j < k then j + 1 else NULL))
     \<and> (\<forall>q\<le>100. mem w q = exampleMem q)
     \<and> 100 \<le> heapTop w"

definition afterWrapAround :: World where
  "afterWrapAround = run (wrapAround @ [Subscribe [(''file'', String_OBJ ''net.c'')] ''tB'' 600]) exampleWorld"

text \<open>Two subscribers to \<open>net.c\<close>, one before and one after an event from that file.\<close>

definition twoAlike :: "Call list" where
  "twoAlike = [Subscribe [(''file'', String_OBJ ''net.c'')] ''tx1'' 1,
               DoLog Log_Level_ERROR 1 42 ''boom'' 0,
               Subscribe [(''file'', String_OBJ ''net.c'')] ''tx2'' 2]"

text \<open>
  A subscriber that asks for line 2147483647, the largest value of a 32-bit \<open>int\<close>.
\<close>

definition hugeLine :: World where
  "hugeLine = subscribe [(''line'', Int_OBJ 2147483647)] ''tx'' 7 exampleWorld"

text \<open>Three subscribers with the stream ids 1, 2 and 3, in the slots 0, 1 and 2.\<close>

definition threeSubscribers :: World where
  "threeSubscribers =
     run [Subscribe [] ''t1'' 1, Subscribe [] ''t2'' 2, Subscribe [] ''t3'' 3] exampleWorld"





text \<open>
  The calls of \<open>wrapAround\<close> up to the name at address 31, which leave the names 1 to 31
  in the slots 0 to 30 and slot 31 empty; after them, two subscribers ask for the name at
  address 32 before any event from that address.
\<close>

definition fillTable :: "Call list" where
  "fillTable =
     [Subscribe [(''file'', String_OBJ ''net.c'')] ''tA'' 500, DoLog Log_Level_ERROR 1 10 ''m'' 0]
     @ concat (map cycleCalls [2..<32])"

definition twoWaiting :: World where
  "twoWaiting =
     run (fillTable @ [Subscribe [(''file'', String_OBJ (exampleMem 32))] ''tX'' 32,
                       Subscribe [(''file'', String_OBJ (exampleMem 32))] ''tY'' 33]) exampleWorld"

text \<open>A subscription as \<open>subscribe\<close> leaves it when the name is not in the table: it
  holds its own copy of the name (at address 9) and compares by content.\<close>

definition contentSubscriber :: Subscription where
  "contentSubscriber =
     \<lparr>level = Log_Level_WARN, internalName = False, lineNum = 0, filePtr = 9,
      txid = ''t'', streamId = 1, alloc = 1\<rparr>"

text \<open>
  A subscriber to \<open>net.c\<close> is promoted and unsubscribes; the next subscriber, who names
  no file, is given the same slot.
\<close>

definition staleInternal :: World where
  "staleInternal =
     run [Subscribe [(''file'', String_OBJ ''net.c'')] ''tA'' 1,
          DoLog Log_Level_ERROR 1 10 ''m'' 0,
          Unsubscribe (Hex_encode (bytes_of_uint64 1)) ''tA'',
          Subscribe [] ''tB'' 2] exampleWorld"

section \<open>The match predicate\<close>

lemma line_test:
  "((line :: 32 word) = word_of_int n) = (uint line = n mod 2 ^ 32)"
proof -
  have "(line = word_of_int n) = (uint line = uint (word_of_int n :: 32 word))"
    by (auto simp: word_uint_eq_iff)
  then show ?thesis by (simp add: uint_word_of_int)
qed

text \<open>
  C1, as the code has it. For every subscription and every log event, \<open>isMatch\<close> answers
  true if and only if the file filter passes (no file set; or \<open>internalName\<close> and the
  event's file is the very pointer the subscription holds; or not \<open>internalName\<close> and the
  two strings have the same content), the event's level is at least the subscription's,
  and the line filter passes: the line is 0, or the event's line equals the subscription's
  line modulo \<open>2 ^ 32\<close> (C's comparison of a \<open>uint32_t\<close> with the \<open>int\<close> bit field). For
  every subscription whose line is not negative that is equality of the two numbers.
\<close>

theorem isMatch_verdict:
  "(fst (isMatch m sub fns logLevel fileName line) \<longleftrightarrow>
      (filePtr sub = NULL
         \<or> (internalName sub \<and> fileName = filePtr sub)
         \<or> (\<not> internalName sub \<and> m fileName = m (filePtr sub)))
      \<and> Log_Level_val (level sub) \<le> Log_Level_val logLevel
      \<and> (lineNum sub = 0 \<or> uint line = lineNum sub mod 2 ^ 32))
   \<and> (0 \<le> lineNum sub \<and> lineNum sub < 2 ^ 32 \<longrightarrow>
        (fst (isMatch m sub fns logLevel fileName line) \<longleftrightarrow>
           (filePtr sub = NULL
              \<or> (internalName sub \<and> fileName = filePtr sub)
              \<or> (\<not> internalName sub \<and> m fileName = m (filePtr sub)))
           \<and> Log_Level_val (level sub) \<le> Log_Level_val logLevel
           \<and> (lineNum sub = 0 \<or> uint line = lineNum sub)))"
proof -
  have verdict: "fst (isMatch m sub fns logLevel fileName line) \<longleftrightarrow>
      (filePtr sub = NULL
         \<or> (internalName sub \<and> fileName = filePtr sub)
         \<or> (\<not> internalName sub \<and> m fileName = m (filePtr sub)))
      \<and> Log_Level_val (level sub) \<le> Log_Level_val logLevel
      \<and> (lineNum sub = 0 \<or> line = word_of_int (lineNum sub))"
    by (auto simp: isMatch_def strcmp_def Let_def split: if_splits)
  have v: "fst (isMatch m sub fns logLevel fileName line) \<longleftrightarrow>
      (filePtr sub = NULL
         \<or> (internalName sub \<and> fileName = filePtr sub)
         \<or> (\<not> internalName sub \<and> m fileName = m (filePtr sub)))
      \<and> Log_Level_val (level sub) \<le> Log_Level_val logLevel
      \<and> (lineNum sub = 0 \<or> uint line = lineNum sub mod 2 ^ 32)"
    unfolding verdict line_test ..
  have "lineNum sub mod 2 ^ 32 = lineNum sub" if "0 \<le> lineNum sub" "lineNum sub < 2 ^ 32"
    using that by simp
  then show ?thesis using v by auto
qed

theorem isMatch_verdict_witness:
  "fst (isMatch (\<lambda>p. ''net.c'')
          \<lparr>level = Log_Level_WARN, internalName = False, lineNum = 42, filePtr = 9,
            txid = ''t'', streamId = 1, alloc = 1\<rparr>
          (\<lambda>i. NULL) Log_Level_ERROR 7 42)"
  using isMatch_verdict [of "\<lambda>p. ''net.c''"
          "\<lparr>level = Log_Level_WARN, internalName = False, lineNum = 42, filePtr = 9,
            txid = ''t'', streamId = 1, alloc = 1\<rparr>"
          "\<lambda>i. NULL" Log_Level_ERROR 7 42]
  by (simp add: NULL_def)

text \<open>
  C1 as stated fails for a subscription whose line is negative. \<open>subscribe\<close> puts no upper
  bound on the line and stores it in a 31-bit field: asked for line 2147483647 it
  succeeds and stores -1. That subscription accepts the event at line 4294967295, which
  is not its line, and rejects the event at line 2147483647; \<open>doLog\<close> delivers the first
  event to it and not the second.
\<close>

theorem isMatch_negative_line:
  "lastReplyError hugeLine = Some ''none''
   \<and> subscriptionCount (adminLog hugeLine) = 1
   \<and> lineNum (subscriptions (adminLog hugeLine) 0) = - 1
   \<and> fst (isMatch (mem hugeLine) (subscriptions (adminLog hugeLine) 0) (fileNames (adminLog hugeLine))
             Log_Level_ERROR 1 4294967295)
   \<and> uint (4294967295 :: 32 word) \<noteq> lineNum (subscriptions (adminLog hugeLine) 0)
   \<and> \<not> fst (isMatch (mem hugeLine) (subscriptions (adminLog hugeLine) 0) (fileNames (adminLog hugeLine))
             Log_Level_ERROR 1 2147483647)
   \<and> map snd (drop (length (sent hugeLine))
                 (sent (doLog Log_Level_ERROR 1 4294967295 ''boom'' 0 hugeLine))) = [''tx'']
   \<and> sent (doLog Log_Level_ERROR 1 2147483647 ''boom'' 0 hugeLine) = sent hugeLine"
  unfolding hugeLine_def by code_simp

section \<open>The interned file-name table\<close>

lemma internFileName_skip:
  "i \<le> k \<Longrightarrow> k < FILENAME_COUNT \<Longrightarrow> (\<forall>j. i \<le> j \<and> j < k \<longrightarrow> fns j \<noteq> name \<and> fns j \<noteq> NULL) \<Longrightarrow>
   internFileName i name fns =
     (if fns k = name then fns
      else if fns k = NULL then (fns(k := name))((k + 1) mod FILENAME_COUNT := NULL)
      else internFileName (k + 1) name fns)"
proof (induction "k - i" arbitrary: i)
  case 0
  then have "i = k" by simp
  then show ?case using 0 by (subst internFileName.simps) simp
next
  case (Suc d)
  then have lt: "i < k" and d: "d = k - (i + 1)" by auto
  have here: "fns i \<noteq> name \<and> fns i \<noteq> NULL" using Suc.prems lt by auto
  have "internFileName i name fns = internFileName (i + 1) name fns"
    using here lt Suc.prems(2) by (subst internFileName.simps) simp
  also have "\<dots> = (if fns k = name then fns
      else if fns k = NULL then (fns(k := name))((k + 1) mod FILENAME_COUNT := NULL)
      else internFileName (k + 1) name fns)"
    using Suc.hyps(1)[OF d] Suc.prems lt by auto
  finally show ?case .
qed

lemma internFileName_no_empty:
  "(\<forall>j. i \<le> j \<and> j < FILENAME_COUNT \<longrightarrow> fns j \<noteq> NULL) \<Longrightarrow> internFileName i name fns = fns"
proof (induction i name fns rule: internFileName.induct)
  case (1 i name fns)
  show ?case
  proof (cases "i < FILENAME_COUNT")
    case True
    then show ?thesis using 1 by (subst internFileName.simps) auto
  next
    case False
    then show ?thesis by (subst internFileName.simps) simp
  qed
qed

section \<open>subscribe\<close>

lemma subscribe_findName_range:
  "i \<le> FILENAME_COUNT \<Longrightarrow> i \<le> subscribe_findName i name m fns \<and> subscribe_findName i name m fns \<le> FILENAME_COUNT"
proof (induction i name m fns rule: subscribe_findName.induct)
  case (1 i name m fns)
  then show ?case by (subst (1 2) subscribe_findName.simps) (auto simp: Suc_le_eq)
qed

lemma subscribe_findName_found:
  "subscribe_findName i name m fns < FILENAME_COUNT \<Longrightarrow>
     fns (subscribe_findName i name m fns) \<noteq> NULL \<and> m (fns (subscribe_findName i name m fns)) = name"
proof (induction i name m fns rule: subscribe_findName.induct)
  case (1 i name m fns)
  show ?case
  proof (cases "i < FILENAME_COUNT \<and> \<not> (fns i \<noteq> NULL \<and> strcmp (m (fns i)) name = 0)")
    case True
    then have eq: "subscribe_findName i name m fns = subscribe_findName (i + 1) name m fns"
      by (subst subscribe_findName.simps) auto
    show ?thesis using 1 True unfolding eq by blast
  next
    case False
    then have "i < FILENAME_COUNT \<longrightarrow> subscribe_findName i name m fns = i"
      by (subst subscribe_findName.simps) simp
    moreover have "\<not> i < FILENAME_COUNT \<longrightarrow> subscribe_findName i name m fns = i"
      by (subst subscribe_findName.simps) simp
    ultimately have eq: "subscribe_findName i name m fns = i" by blast
    show ?thesis using 1(2) False unfolding eq by (auto simp: strcmp_def split: if_splits)
  qed
qed

lemma subscribe_findName_before:
  "i \<le> j \<Longrightarrow> j < subscribe_findName i name m fns \<Longrightarrow> fns j = NULL \<or> m (fns j) \<noteq> name"
proof (induction i name m fns rule: subscribe_findName.induct)
  case (1 i name m fns)
  show ?case
  proof (cases "i < FILENAME_COUNT \<and> \<not> (fns i \<noteq> NULL \<and> strcmp (m (fns i)) name = 0)")
    case True
    then have eq: "subscribe_findName i name m fns = subscribe_findName (i + 1) name m fns"
      by (subst subscribe_findName.simps) auto
    show ?thesis
    proof (cases "j = i")
      case True
      then show ?thesis using \<open>i < FILENAME_COUNT \<and> \<not> (fns i \<noteq> NULL \<and> strcmp (m (fns i)) name = 0)\<close>
        by (auto simp: strcmp_def split: if_splits)
    next
      case False
      then have "i + 1 \<le> j" using 1(2) by simp
      then show ?thesis using 1(1) 1(3) True unfolding eq by blast
    qed
  next
    case False
    then have "i < FILENAME_COUNT \<longrightarrow> subscribe_findName i name m fns = i"
      by (subst subscribe_findName.simps) simp
    moreover have "\<not> i < FILENAME_COUNT \<longrightarrow> subscribe_findName i name m fns = i"
      by (subst subscribe_findName.simps) simp
    ultimately have eq: "subscribe_findName i name m fns = i" by blast
    show ?thesis using 1(2,3) unfolding eq by simp
  qed
qed

lemma subscribe_fileNames:
  "fileNames (adminLog (subscribe args t rnd w)) = fileNames (adminLog w)"
  by (simp add: subscribe_def sendError_def Admin_sendMessage_def Let_def split: option.splits)

lemma lastReplyError_sendError: "lastReplyError (sendError e t w) = Some e"
  by (simp add: lastReplyError_def sendError_def Admin_sendMessage_def Dict_getString_def)

lemma error_texts_not_none:
  "InvalidLevel \<noteq> ''none''" "InvalidLine \<noteq> ''none''" "CapacityExceeded \<noteq> ''none''"
  "InvalidStreamId \<noteq> ''none''" "NotFound \<noteq> ''none''"
  by (simp_all add: InvalidLevel_def InvalidLine_def CapacityExceeded_def InvalidStreamId_def NotFound_def)

lemma subscribe_rejected:
  "\<not> subscribeAccepts args w \<Longrightarrow>
     subscribe args t rnd w =
       sendError
         (if (case Dict_getString args ''level'' of Some n \<Rightarrow> Log_levelForName n | None \<Rightarrow> Log_Level_DEBUG)
               = Log_Level_INVALID then InvalidLevel
          else if (case Dict_getInt args ''line'' of Some l \<Rightarrow> l < 1 | None \<Rightarrow> False) then InvalidLine
          else CapacityExceeded) t w"
  by (auto simp: subscribeAccepts_def subscribe_def Let_def not_less split: option.splits)

lemma subscribe_accepted_reply:
  "subscribeAccepts args w \<Longrightarrow>
     sent (subscribe args t rnd w) =
       sent w @ [([(''error'', String_OBJ ''none''),
                   (''streamId'', String_OBJ (Hex_encode (bytes_of_uint64 rnd)))], t)]"
  by (auto simp: subscribeAccepts_def subscribe_def Let_def not_less Admin_sendMessage_def split: option.splits)

lemma subscribe_ok_iff:
  "lastReplyError (subscribe args t rnd w) = Some ''none'' \<longleftrightarrow> subscribeAccepts args w"
proof (cases "subscribeAccepts args w")
  case True
  then show ?thesis
    by (simp add: subscribe_accepted_reply lastReplyError_def Dict_getString_def)
next
  case False
  then show ?thesis using error_texts_not_none
    by (simp add: subscribe_rejected lastReplyError_sendError)
qed

lemma subscribe_accepted_count:
  "subscribeAccepts args w \<Longrightarrow>
     subscriptionCount (adminLog (subscribe args t rnd w)) = subscriptionCount (adminLog w) + 1"
  by (auto simp: subscribeAccepts_def subscribe_def Let_def not_less Admin_sendMessage_def split: option.splits)

lemma subscribe_accepted_others:
  "subscribeAccepts args w \<Longrightarrow> j \<noteq> subscriptionCount (adminLog w) \<Longrightarrow>
     subscriptions (adminLog (subscribe args t rnd w)) j = subscriptions (adminLog w) j"
  by (auto simp: subscribeAccepts_def subscribe_def Let_def not_less Admin_sendMessage_def split: option.splits)

lemma subscribe_accepted_new:
  "subscribeAccepts args w \<Longrightarrow>
     streamId (subscriptions (adminLog (subscribe args t rnd w)) (subscriptionCount (adminLog w))) = rnd
     \<and> txid (subscriptions (adminLog (subscribe args t rnd w)) (subscriptionCount (adminLog w))) = t
     \<and> alloc (subscriptions (adminLog (subscribe args t rnd w)) (subscriptionCount (adminLog w))) = nextAlloc w"
  by (auto simp: subscribeAccepts_def subscribe_def Let_def not_less Admin_sendMessage_def split: option.splits)

lemma subscribe_accepted_file:
  fixes args :: Dict and t :: string and rnd :: "64 word" and w :: World
  assumes "subscribeAccepts args w"
  defines "sub \<equiv> subscriptions (adminLog (subscribe args t rnd w)) (subscriptionCount (adminLog w))"
  shows "case Dict_getString args ''file'' of
           None \<Rightarrow> filePtr sub = NULL
         | Some bytes \<Rightarrow>
             (internalName sub \<and> filePtr sub \<noteq> NULL
                \<and> (\<exists>i<FILENAME_COUNT. filePtr sub = fileNames (adminLog w) i)
                \<and> mem w (filePtr sub) = cstring bytes
                \<and> mem (subscribe args t rnd w) = mem w \<and> heapTop (subscribe args t rnd w) = heapTop w)
             \<or> (\<not> internalName sub \<and> filePtr sub = heapTop w + 1
                \<and> mem (subscribe args t rnd w) = (mem w)(heapTop w + 1 := cstring bytes)
                \<and> heapTop (subscribe args t rnd w) = heapTop w + 1
                \<and> (\<forall>i<FILENAME_COUNT. fileNames (adminLog w) i = NULL
                       \<or> mem w (fileNames (adminLog w) i) \<noteq> cstring bytes))"
proof (cases "Dict_getString args ''file''")
  case None
  then show ?thesis using assms(1) unfolding sub_def
    by (auto simp: subscribeAccepts_def subscribe_def Let_def not_less Admin_sendMessage_def split: option.splits)
next
  case (Some bytes)
  let ?r = "subscribe_findName 0 (cstring bytes) (mem w) (fileNames (adminLog w))"
  have rng: "?r \<le> FILENAME_COUNT" using subscribe_findName_range[of 0] by simp
  show ?thesis
  proof (cases "?r = FILENAME_COUNT")
    case True
    have none: "\<forall>i<FILENAME_COUNT. fileNames (adminLog w) i = NULL
                       \<or> mem w (fileNames (adminLog w) i) \<noteq> cstring bytes"
      using subscribe_findName_before[of 0 _ "cstring bytes" "mem w" "fileNames (adminLog w)"] True by simp
    show ?thesis using assms(1) Some True none unfolding sub_def
      by (auto simp: subscribeAccepts_def subscribe_def Let_def not_less Admin_sendMessage_def split: option.splits)
  next
    case False
    then have lt: "?r < FILENAME_COUNT" using rng by simp
    note f = subscribe_findName_found[OF lt]
    show ?thesis using assms(1) Some False lt f unfolding sub_def
      by (auto simp: subscribeAccepts_def subscribe_def Let_def not_less Admin_sendMessage_def split: option.splits)
  qed
qed

lemma subscribesSucceed_count:
  "subscribesSucceed cs w \<Longrightarrow>
     subscriptionCount (adminLog (subscribeAll cs w)) = subscriptionCount (adminLog w) + length cs
     \<and> subscriptionCount (adminLog (subscribeAll cs w)) \<le> MAX_SUBSCRIPTIONS
          + (if cs = [] then subscriptionCount (adminLog w) else 0)"
proof (induction cs arbitrary: w)
  case Nil
  then show ?case by simp
next
  case (Cons c cs)
  obtain args t rnd where c: "c = (args, t, rnd)" by (cases c) auto
  have acc: "subscribeAccepts args w" using Cons.prems c by (simp add: subscribe_ok_iff)
  have rest: "subscribesSucceed cs (subscribe args t rnd w)" using Cons.prems c by simp
  note ih = Cons.IH[OF rest]
  have cnt: "subscriptionCount (adminLog (subscribe args t rnd w)) = subscriptionCount (adminLog w) + 1"
    using acc by (rule subscribe_accepted_count)
  have le: "subscriptionCount (adminLog w) + 1 \<le> MAX_SUBSCRIPTIONS"
    using acc by (simp add: subscribeAccepts_def)
  show ?case using ih cnt le c by (auto split: if_splits)
qed

lemma subscribesSucceed_replicate:
  "(case Dict_getString args ''level'' of Some n \<Rightarrow> Log_levelForName n \<noteq> Log_Level_INVALID | None \<Rightarrow> True)
   \<Longrightarrow> (case Dict_getInt args ''line'' of Some l \<Rightarrow> 1 \<le> l | None \<Rightarrow> True)
   \<Longrightarrow> subscriptionCount (adminLog w) + n \<le> MAX_SUBSCRIPTIONS
   \<Longrightarrow> subscribesSucceed (replicate n (args, t, rnd)) w"
proof (induction n arbitrary: w)
  case 0
  then show ?case by simp
next
  case (Suc n)
  have acc: "subscribeAccepts args w" using Suc.prems by (simp add: subscribeAccepts_def)
  have cnt: "subscriptionCount (adminLog (subscribe args t rnd w)) + n \<le> MAX_SUBSCRIPTIONS"
    using Suc.prems(3) by (simp add: subscribe_accepted_count[OF acc])
  show ?case using Suc.IH[OF Suc.prems(1,2) cnt] acc by (simp add: subscribe_ok_iff)
qed

lemma example64: "subscribesSucceed (replicate 64 ([(''level'', String_OBJ ''WARN'')], ''tx'', 7)) exampleWorld"
  by (rule subscribesSucceed_replicate)
     (simp_all add: Dict_getInt_def Dict_getString_def Log_levelForName_def exampleWorld_def
        AdminLog_registerNew_def MAX_SUBSCRIPTIONS_def)

text \<open>
  C4. A \<open>subscribe\<close> call that fails (a level name that is not recognised, a line below
  1, or 64 subscriptions in the store already) changes nothing but the list of sent
  messages, to which it adds the one error reply: the store is as it was, and no
  allocator and no memory has been taken. After 64 \<open>subscribe\<close> calls that were all
  answered with \<open>error: none\<close> the store holds 64 subscriptions; a 65th call fails and
  leaves the store as it is, and its error is \<open>Max subscription count reached.\<close> whenever
  its level and line arguments are acceptable (these are checked first).
\<close>

theorem subscribe_failure_frame:
  "(((case Dict_getString args ''level'' of Some n \<Rightarrow> Log_levelForName n = Log_Level_INVALID | None \<Rightarrow> False)
      \<or> (case Dict_getInt args ''line'' of Some l \<Rightarrow> l < 1 | None \<Rightarrow> False)
      \<or> MAX_SUBSCRIPTIONS \<le> subscriptionCount (adminLog w))
     \<longrightarrow> subscribe args t rnd w =
           w\<lparr>sent := sent w @
              [([(''error'', String_OBJ
                   (if (case Dict_getString args ''level'' of Some n \<Rightarrow> Log_levelForName n = Log_Level_INVALID
                        | None \<Rightarrow> False) then InvalidLevel
                    else if (case Dict_getInt args ''line'' of Some l \<Rightarrow> l < 1 | None \<Rightarrow> False)
                      then InvalidLine
                    else CapacityExceeded))], t)]\<rparr>)
   \<and> (length cs = 64 \<and> subscribesSucceed cs w0
     \<longrightarrow> subscriptionCount (adminLog (subscribeAll cs w0)) = 64
         \<and> adminLog (subscribe args' t' rnd' (subscribeAll cs w0)) = adminLog (subscribeAll cs w0)
         \<and> lastReplyError (subscribe args' t' rnd' (subscribeAll cs w0))
              \<in> {Some InvalidLevel, Some InvalidLine, Some CapacityExceeded}
         \<and> ((case Dict_getString args' ''level'' of Some n \<Rightarrow> Log_levelForName n \<noteq> Log_Level_INVALID | None \<Rightarrow> True)
              \<and> (case Dict_getInt args' ''line'' of Some l \<Rightarrow> 1 \<le> l | None \<Rightarrow> True)
            \<longrightarrow> lastReplyError (subscribe args' t' rnd' (subscribeAll cs w0)) = Some CapacityExceeded))"
proof (intro conjI impI)
  assume fail: "(case Dict_getString args ''level'' of Some n \<Rightarrow> Log_levelForName n = Log_Level_INVALID | None \<Rightarrow> False)
      \<or> (case Dict_getInt args ''line'' of Some l \<Rightarrow> l < 1 | None \<Rightarrow> False)
      \<or> MAX_SUBSCRIPTIONS \<le> subscriptionCount (adminLog w)"
  then have "\<not> subscribeAccepts args w"
    by (auto simp: subscribeAccepts_def split: option.splits)
  from subscribe_rejected[OF this, of t rnd]
  show "subscribe args t rnd w =
           w\<lparr>sent := sent w @
              [([(''error'', String_OBJ
                   (if (case Dict_getString args ''level'' of Some n \<Rightarrow> Log_levelForName n = Log_Level_INVALID
                        | None \<Rightarrow> False) then InvalidLevel
                    else if (case Dict_getInt args ''line'' of Some l \<Rightarrow> l < 1 | None \<Rightarrow> False)
                      then InvalidLine
                    else CapacityExceeded))], t)]\<rparr>"
    by (auto simp: sendError_def Admin_sendMessage_def split: option.splits)
next
  assume h: "length cs = 64 \<and> subscribesSucceed cs w0"
  let ?w = "subscribeAll cs w0"
  from subscribesSucceed_count[of cs w0] h
  have cnt: "subscriptionCount (adminLog ?w) = 64"
    by (auto simp: MAX_SUBSCRIPTIONS_def split: if_splits)
  then have rej: "\<not> subscribeAccepts args' ?w" by (simp add: subscribeAccepts_def MAX_SUBSCRIPTIONS_def)
  note eq = subscribe_rejected[OF rej, of t' rnd']
  show "subscriptionCount (adminLog ?w) = 64" by (rule cnt)
  show "adminLog (subscribe args' t' rnd' ?w) = adminLog ?w"
    unfolding eq by (simp add: sendError_def Admin_sendMessage_def)
  show "lastReplyError (subscribe args' t' rnd' ?w) \<in> {Some InvalidLevel, Some InvalidLine, Some CapacityExceeded}"
    unfolding eq by (simp add: lastReplyError_sendError)
  assume ok: "(case Dict_getString args' ''level'' of Some n \<Rightarrow> Log_levelForName n \<noteq> Log_Level_INVALID | None \<Rightarrow> True)
              \<and> (case Dict_getInt args' ''line'' of Some l \<Rightarrow> 1 \<le> l | None \<Rightarrow> True)"
  show "lastReplyError (subscribe args' t' rnd' ?w) = Some CapacityExceeded"
    unfolding eq using ok by (auto simp: lastReplyError_sendError split: option.splits)
qed

theorem subscribe_failure_frame_witness:
  "subscribe [(''line'', Int_OBJ 0)] ''tx'' 7 exampleWorld
     = exampleWorld\<lparr>sent := sent exampleWorld @ [([(''error'', String_OBJ InvalidLine)], ''tx'')]\<rparr>
   \<and> subscriptionCount (adminLog (subscribeAll (replicate 64 ([(''level'', String_OBJ ''WARN'')], ''tx'', 7)) exampleWorld)) = 64
   \<and> subscriptionCount (adminLog (subscribe [(''level'', String_OBJ ''WARN'')] ''tx'' 7
        (subscribeAll (replicate 64 ([(''level'', String_OBJ ''WARN'')], ''tx'', 7)) exampleWorld))) = 64
   \<and> lastReplyError (subscribe [(''level'', String_OBJ ''WARN'')] ''tx'' 7
        (subscribeAll (replicate 64 ([(''level'', String_OBJ ''WARN'')], ''tx'', 7)) exampleWorld)) = Some CapacityExceeded"
proof -
  let ?cs = "replicate 64 ([(''level'', String_OBJ ''WARN'')], ''tx'', 7 :: 64 word)"
  have h1: "length ?cs = 64" by simp
  have h2: "subscribesSucceed ?cs exampleWorld" by (rule example64)
  have h3: "(case Dict_getInt [(''line'', Int_OBJ 0)] ''line'' of Some l \<Rightarrow> l < 1 | None \<Rightarrow> False)"
    by (simp add: Dict_getInt_def)
  have h4: "(case Dict_getString [(''level'', String_OBJ ''WARN'')] ''level'' of Some n \<Rightarrow> Log_levelForName n \<noteq> Log_Level_INVALID | None \<Rightarrow> True)
              \<and> (case Dict_getInt [(''level'', String_OBJ ''WARN'')] ''line'' of Some l \<Rightarrow> 1 \<le> l | None \<Rightarrow> True)"
    by (simp add: Dict_getInt_def Dict_getString_def Log_levelForName_def)
  have e: "InvalidLine \<noteq> InvalidLevel" "InvalidLine \<noteq> CapacityExceeded"
    by (simp_all add: InvalidLevel_def InvalidLine_def CapacityExceeded_def)
  from subscribe_failure_frame [of "[(''line'', Int_OBJ 0)]" exampleWorld "''tx''" 7 ?cs exampleWorld
          "[(''level'', String_OBJ ''WARN'')]" "''tx''" 7] h1 h2 h3 h4
  show ?thesis
    by (simp add: Dict_getInt_def Dict_getString_def Log_levelForName_def)
qed

section \<open>unsubscribe\<close>

lemma Hex_decode_length: "Hex_decode h = Some bs \<Longrightarrow> length h = 2 * length bs"
  by (induction h arbitrary: bs rule: Hex_decode.induct) (auto split: option.splits)




lemma unsubscribe_loop_first:
  "i \<le> k \<Longrightarrow> k < subscriptionCount (adminLog w) \<Longrightarrow>
   (\<forall>j. i \<le> j \<and> j < k \<longrightarrow> streamId (subscriptions (adminLog w) j) \<noteq> sid) \<Longrightarrow>
   streamId (subscriptions (adminLog w) k) = sid \<Longrightarrow>
   unsubscribe_loop i sid w =
     (''none'',
      w\<lparr>freed := freed w @ [alloc (subscriptions (adminLog w) k)],
        adminLog := (adminLog w)
          \<lparr>subscriptions := (subscriptions (adminLog w))
                              (k := subscriptions (adminLog w) (subscriptionCount (adminLog w) - 1)),
           subscriptionCount := subscriptionCount (adminLog w) - 1\<rparr>\<rparr>)"
proof (induction "k - i" arbitrary: i)
  case 0
  then have ik: "i = k" by simp
  have last0: "(subscriptions (adminLog w))(k := subscriptions (adminLog w) 0) = subscriptions (adminLog w)"
    if "subscriptionCount (adminLog w) - 1 = 0"
  proof -
    have "k = 0" using that 0(3) by simp
    then show ?thesis by simp
  qed
  show ?case
  proof (cases "subscriptionCount (adminLog w) - 1 = 0")
    case True
    show ?thesis using 0 ik True last0[OF True]
      by (subst unsubscribe_loop.simps) (simp add: Let_def)
  next
    case False
    show ?thesis using 0 ik False
      by (subst unsubscribe_loop.simps) (simp add: Let_def)
  qed
next
  case (Suc d)
  then have lt: "i < k" and d: "d = k - (i + 1)" by auto
  have ne: "sid \<noteq> streamId (subscriptions (adminLog w) i)" using Suc.prems lt by auto
  have "unsubscribe_loop i sid w = unsubscribe_loop (i + 1) sid w"
    using ne lt Suc.prems(2) by (subst unsubscribe_loop.simps) simp
  also have "\<dots> = (''none'',
      w\<lparr>freed := freed w @ [alloc (subscriptions (adminLog w) k)],
        adminLog := (adminLog w)
          \<lparr>subscriptions := (subscriptions (adminLog w))
                              (k := subscriptions (adminLog w) (subscriptionCount (adminLog w) - 1)),
           subscriptionCount := subscriptionCount (adminLog w) - 1\<rparr>\<rparr>)"
    using Suc.hyps(1)[OF d] Suc.prems lt by auto
  finally show ?case .
qed

lemma unsubscribe_loop_fileNames:
  "fileNames (adminLog (snd (unsubscribe_loop i sid w))) = fileNames (adminLog w)"
proof (induction i sid w rule: unsubscribe_loop.induct)
  case (1 i sid w)
  show ?case using 1 by (subst unsubscribe_loop.simps) (simp add: Let_def)
qed

lemma live_after_removal:
  assumes "k < n"
  shows "mset (map (f(k := f (n - 1))) [0..<n - 1]) = mset (map f [0..<n]) - {#f k#}"
proof -
  obtain n' where n: "n = Suc n'" using assms by (cases n) auto
  have k: "k \<le> n'" using assms n by simp
  show ?thesis
  proof (cases "k = n'")
    case True
    then show ?thesis using n by simp
  next
    case False
    then have lt: "k < n'" using k by simp
    have split: "[0..<n'] = [0..<k] @ k # [Suc k..<n']"
      using lt by (metis le_add1 less_imp_add_positive upt_add_eq_append upt_conv_Cons zero_le plus_nat.add_0 less_eq_nat.simps(1) less_or_eq_imp_le)
    have a: "map (f(k := f n')) [0..<k] = map f [0..<k]" by simp
    have b: "map (f(k := f n')) [Suc k..<n'] = map f [Suc k..<n']" by simp
    show ?thesis using n by (simp add: split a b)
  qed
qed



text \<open>
  C3. If the \<open>streamId\<close> argument decodes and some live subscription has that stream id,
  \<open>unsubscribe\<close> takes the first such slot \<open>k\<close>: it frees that subscription's allocator
  (one call of \<open>free\<close>, on that allocator), copies the last live slot over slot \<open>k\<close> (which
  changes nothing when \<open>k\<close> is the last live slot), lowers the count by one and replies
  \<open>error: none\<close>. The live subscriptions afterwards are those before without the one
  removed.
\<close>

theorem unsubscribe_removes:
  assumes "length h = 16" and "Hex_decode h = Some bs"
    and "\<exists>i < subscriptionCount (adminLog w). streamId (subscriptions (adminLog w) i) = uint64_of_bytes bs"
  shows "\<exists>k < subscriptionCount (adminLog w).
           streamId (subscriptions (adminLog w) k) = uint64_of_bytes bs
           \<and> (\<forall>j<k. streamId (subscriptions (adminLog w) j) \<noteq> uint64_of_bytes bs)
           \<and> unsubscribe h t w =
               w\<lparr>freed := freed w @ [alloc (subscriptions (adminLog w) k)],
                 adminLog := (adminLog w)
                   \<lparr>subscriptions := (subscriptions (adminLog w))
                       (k := subscriptions (adminLog w) (subscriptionCount (adminLog w) - 1)),
                    subscriptionCount := subscriptionCount (adminLog w) - 1\<rparr>,
                 sent := sent w @ [([(''error'', String_OBJ ''none'')], t)]\<rparr>
           \<and> liveSubscriptions (unsubscribe h t w)
               = liveSubscriptions w - {#subscriptions (adminLog w) k#}"
proof -
  let ?sid = "uint64_of_bytes bs"
  let ?P = "\<lambda>i. i < subscriptionCount (adminLog w) \<and> streamId (subscriptions (adminLog w) i) = ?sid"
  define k where "k = (LEAST i. ?P i)"
  have ex: "\<exists>i. ?P i" using assms(3) by blast
  have Pk: "?P k" unfolding k_def using ex by (rule LeastI_ex)
  have first: "\<forall>j<k. streamId (subscriptions (adminLog w) j) \<noteq> ?sid"
  proof (intro allI impI)
    fix j assume "j < k"
    then have "\<not> ?P j" unfolding k_def by (rule not_less_Least)
    moreover have "j < subscriptionCount (adminLog w)" using \<open>j < k\<close> Pk by simp
    ultimately show "streamId (subscriptions (adminLog w) j) \<noteq> ?sid" by simp
  qed
  have len: "length bs = 8" using Hex_decode_length[OF assms(2)] assms(1) by simp
  have loop: "unsubscribe_loop 0 ?sid w =
     (''none'',
      w\<lparr>freed := freed w @ [alloc (subscriptions (adminLog w) k)],
        adminLog := (adminLog w)
          \<lparr>subscriptions := (subscriptions (adminLog w))
                              (k := subscriptions (adminLog w) (subscriptionCount (adminLog w) - 1)),
           subscriptionCount := subscriptionCount (adminLog w) - 1\<rparr>\<rparr>)"
    using unsubscribe_loop_first[of 0 k w ?sid] Pk first by simp
  have eq: "unsubscribe h t w =
               w\<lparr>freed := freed w @ [alloc (subscriptions (adminLog w) k)],
                 adminLog := (adminLog w)
                   \<lparr>subscriptions := (subscriptions (adminLog w))
                       (k := subscriptions (adminLog w) (subscriptionCount (adminLog w) - 1)),
                    subscriptionCount := subscriptionCount (adminLog w) - 1\<rparr>,
                 sent := sent w @ [([(''error'', String_OBJ ''none'')], t)]\<rparr>"
    using assms(1,2) len loop by (simp add: unsubscribe_def sendError_def Admin_sendMessage_def)
  have live: "liveSubscriptions (unsubscribe h t w) = liveSubscriptions w - {#subscriptions (adminLog w) k#}"
    unfolding eq liveSubscriptions_def using live_after_removal[of k "subscriptionCount (adminLog w)" "subscriptions (adminLog w)"] Pk
    by simp
  show ?thesis using Pk first eq live by blast
qed

lemma threeSubscribers_state:
  "subscriptionCount (adminLog threeSubscribers) = 3"
  "map (\<lambda>i. streamId (subscriptions (adminLog threeSubscribers) i)) [0, 1, 2] = [1, 2, 3]"
  "map (\<lambda>i. txid (subscriptions (adminLog threeSubscribers) i)) [0, 1, 2] = [''t1'', ''t2'', ''t3'']"
  "map (\<lambda>i. alloc (subscriptions (adminLog threeSubscribers) i)) [0, 1, 2] = [1, 2, 3]"
  "freed threeSubscribers = []"
  "Hex_decode ''0100000000000000'' = Some [1, 0, 0, 0, 0, 0, 0, 0]"
  "uint64_of_bytes [1, 0, 0, 0, 0, 0, 0, 0] = 1"
  unfolding threeSubscribers_def by code_simp+

theorem unsubscribe_removes_witness:
  "subscriptionCount (adminLog (unsubscribe ''0100000000000000'' ''tu'' threeSubscribers)) = 2
   \<and> freed (unsubscribe ''0100000000000000'' ''tu'' threeSubscribers) = [1]
   \<and> map (\<lambda>i. txid (subscriptions (adminLog (unsubscribe ''0100000000000000'' ''tu'' threeSubscribers)) i))
         [0, 1] = [''t3'', ''t2'']
   \<and> liveSubscriptions (unsubscribe ''0100000000000000'' ''tu'' threeSubscribers)
       = liveSubscriptions threeSubscribers - {#subscriptions (adminLog threeSubscribers) 0#}"
proof -
  let ?w = "threeSubscribers"
  note st = threeSubscribers_state
  have h1: "length ''0100000000000000'' = 16" by simp
  have h3: "\<exists>i < subscriptionCount (adminLog ?w).
              streamId (subscriptions (adminLog ?w) i) = uint64_of_bytes [1, 0, 0, 0, 0, 0, 0, 0]"
    using st by (intro exI[of _ 0]) simp
  obtain k where k: "k < subscriptionCount (adminLog ?w)"
    and sid: "streamId (subscriptions (adminLog ?w) k) = uint64_of_bytes [1, 0, 0, 0, 0, 0, 0, 0]"
    and eq: "unsubscribe ''0100000000000000'' ''tu'' ?w =
               ?w\<lparr>freed := freed ?w @ [alloc (subscriptions (adminLog ?w) k)],
                 adminLog := (adminLog ?w)
                   \<lparr>subscriptions := (subscriptions (adminLog ?w))
                       (k := subscriptions (adminLog ?w) (subscriptionCount (adminLog ?w) - 1)),
                    subscriptionCount := subscriptionCount (adminLog ?w) - 1\<rparr>,
                 sent := sent ?w @ [([(''error'', String_OBJ ''none'')], ''tu'')]\<rparr>"
    and live: "liveSubscriptions (unsubscribe ''0100000000000000'' ''tu'' ?w)
               = liveSubscriptions ?w - {#subscriptions (adminLog ?w) k#}"
    using unsubscribe_removes [OF h1 st(6) h3, of "''tu''"] by blast
  have "k = 0 \<or> k = 1 \<or> k = 2" using k st(1) by auto
  then have k0: "k = 0" using sid st(2,7) by auto
  note eq0 = eq[unfolded k0]
  have a: "subscriptionCount (adminLog (unsubscribe ''0100000000000000'' ''tu'' ?w)) = 2"
    unfolding eq0 using st(1) by simp
  have b: "freed (unsubscribe ''0100000000000000'' ''tu'' ?w) = [1]"
    unfolding eq0 using st(4,5) by simp
  have c: "map (\<lambda>i. txid (subscriptions (adminLog (unsubscribe ''0100000000000000'' ''tu'' ?w)) i))
         [0, 1] = [''t3'', ''t2'']"
    unfolding eq0 using st(1,3) by simp
  show ?thesis using a b c live[unfolded k0] by blast
qed

section \<open>Who writes the interned table\<close>

text \<open>
  C10. \<open>subscribe\<close> leaves the interned table as it is. When it succeeds with a \<open>file\<close>
  argument, the new subscription either holds a non-empty entry of the table whose
  content equals the argument (and is marked internal, nothing being copied), or, no
  non-empty entry having that content, a fresh copy of the argument (and is not marked
  internal); without a \<open>file\<close> argument it holds the null pointer. \<open>unsubscribe\<close> leaves
  the table as it is, too, and \<open>isMatch\<close> changes it only when it promotes a subscription
  that compared by content.
\<close>

theorem subscribe_reads_table:
  "fileNames (adminLog (subscribe args t rnd w)) = fileNames (adminLog w)
   \<and> (lastReplyError (subscribe args t rnd w) = Some ''none'' \<longrightarrow>
        (case Dict_getString args ''file'' of
           None \<Rightarrow> filePtr (subscriptions (adminLog (subscribe args t rnd w)) (subscriptionCount (adminLog w))) = NULL
         | Some bytes \<Rightarrow>
             (internalName (subscriptions (adminLog (subscribe args t rnd w)) (subscriptionCount (adminLog w)))
                \<and> filePtr (subscriptions (adminLog (subscribe args t rnd w)) (subscriptionCount (adminLog w))) \<noteq> NULL
                \<and> (\<exists>i<FILENAME_COUNT.
                      filePtr (subscriptions (adminLog (subscribe args t rnd w)) (subscriptionCount (adminLog w)))
                        = fileNames (adminLog w) i)
                \<and> mem w (filePtr (subscriptions (adminLog (subscribe args t rnd w)) (subscriptionCount (adminLog w))))
                     = cstring bytes
                \<and> mem (subscribe args t rnd w) = mem w)
             \<or> (\<not> internalName (subscriptions (adminLog (subscribe args t rnd w)) (subscriptionCount (adminLog w)))
                \<and> filePtr (subscriptions (adminLog (subscribe args t rnd w)) (subscriptionCount (adminLog w)))
                     = heapTop w + 1
                \<and> mem (subscribe args t rnd w) = (mem w)(heapTop w + 1 := cstring bytes)
                \<and> (\<forall>i<FILENAME_COUNT. fileNames (adminLog w) i = NULL
                       \<or> mem w (fileNames (adminLog w) i) \<noteq> cstring bytes))))
   \<and> fileNames (adminLog (unsubscribe h t' w')) = fileNames (adminLog w')
   \<and> (snd (snd (isMatch m sub fns logLevel fileName line)) \<noteq> fns \<longrightarrow>
        filePtr sub \<noteq> NULL \<and> \<not> internalName sub \<and> m fileName = m (filePtr sub))"
proof -
  have sub: "fileNames (adminLog (subscribe args t rnd w)) = fileNames (adminLog w)"
    by (rule subscribe_fileNames)
  have unsub: "fileNames (adminLog (unsubscribe h t' w')) = fileNames (adminLog w')"
    by (simp add: unsubscribe_def sendError_def Admin_sendMessage_def Let_def unsubscribe_loop_fileNames
          split: option.splits)
  have new: "subscribeAccepts args w" if "lastReplyError (subscribe args t rnd w) = Some ''none''"
    using that by (simp add: subscribe_ok_iff)
  have promo: "filePtr sub \<noteq> NULL \<and> \<not> internalName sub \<and> m fileName = m (filePtr sub)"
    if "snd (snd (isMatch m sub fns logLevel fileName line)) \<noteq> fns"
    using that by (auto simp: isMatch_def Let_def strcmp_def split: if_splits)
  show ?thesis
    using sub unsub promo subscribe_accepted_file[OF new, of t rnd]
    by (auto split: option.splits)
qed

theorem subscribe_reads_table_witness:
  "fileNames (adminLog (subscribe [(''file'', String_OBJ ''net.c'')] ''tx'' 7 exampleWorld))
     = fileNames (adminLog exampleWorld)
   \<and> lastReplyError (subscribe [(''file'', String_OBJ ''net.c'')] ''tx'' 7 exampleWorld) = Some ''none''
   \<and> filePtr (subscriptions (adminLog (subscribe [(''file'', String_OBJ ''net.c'')] ''tx'' 7 exampleWorld)) 0) = 101
   \<and> \<not> internalName (subscriptions (adminLog (subscribe [(''file'', String_OBJ ''net.c'')] ''tx'' 7 exampleWorld)) 0)
   \<and> snd (snd (isMatch (mem (subscribe [(''file'', String_OBJ ''net.c'')] ''tx'' 7 exampleWorld))
        (subscriptions (adminLog (subscribe [(''file'', String_OBJ ''net.c'')] ''tx'' 7 exampleWorld)) 0)
        (\<lambda>i. NULL) Log_Level_ERROR 1 42)) 0 = 1"
proof -
  let ?w = "subscribe [(''file'', String_OBJ ''net.c'')] ''tx'' 7 exampleWorld"
  have ok: "lastReplyError ?w = Some ''none''" by code_simp
  have c0: "subscriptionCount (adminLog exampleWorld) = 0" by code_simp
  have f: "Dict_getString [(''file'', String_OBJ ''net.c'')] ''file'' = Some ''net.c''" by code_simp
  have ni: "\<not> internalName (subscriptions (adminLog ?w) 0)" by code_simp
  have tbl: "snd (snd (isMatch (mem ?w) (subscriptions (adminLog ?w) 0) (\<lambda>i. NULL) Log_Level_ERROR 1 42)) 0 = 1"
    by code_simp
  have ch: "snd (snd (isMatch (mem ?w) (subscriptions (adminLog ?w) 0) (\<lambda>i. NULL) Log_Level_ERROR 1 42))
              \<noteq> (\<lambda>i. NULL)"
  proof
    assume "snd (snd (isMatch (mem ?w) (subscriptions (adminLog ?w) 0) (\<lambda>i. NULL) Log_Level_ERROR 1 42))
              = (\<lambda>i. NULL)"
    then have "snd (snd (isMatch (mem ?w) (subscriptions (adminLog ?w) 0) (\<lambda>i. NULL) Log_Level_ERROR 1 42)) 0
              = NULL" by simp
    with tbl show False by (simp add: NULL_def)
  qed
  from subscribe_reads_table [of "[(''file'', String_OBJ ''net.c'')]" "''tx''" 7 exampleWorld
          "''zz''" "''tx''" exampleWorld "mem ?w" "subscriptions (adminLog ?w) 0" "\<lambda>i. NULL"
          Log_Level_ERROR 1 42] ok c0 f ni tbl ch
  show ?thesis by (auto simp: exampleWorld_def AdminLog_registerNew_def)
qed

section \<open>doLog\<close>

lemma isMatch_sub_cases:
  "fst (snd (isMatch m sub fns lv f ln)) = sub
   \<or> fst (snd (isMatch m sub fns lv f ln)) = sub\<lparr>filePtr := f, internalName := True\<rparr>"
  by (auto simp: isMatch_def Let_def split: if_splits)

lemma isMatch_ids:
  "streamId (fst (snd (isMatch m sub fns lv f ln))) = streamId sub"
  "txid (fst (snd (isMatch m sub fns lv f ln))) = txid sub"
  "level (fst (snd (isMatch m sub fns lv f ln))) = level sub"
  "lineNum (fst (snd (isMatch m sub fns lv f ln))) = lineNum sub"
  "alloc (fst (snd (isMatch m sub fns lv f ln))) = alloc sub"
  using isMatch_sub_cases[of m sub fns lv f ln] by auto

lemma doLog_body_frame:
  "subscriptionCount (adminLog (snd (doLog_body i lv f ln msg sn s))) = subscriptionCount (adminLog (snd s))"
  "mem (snd (doLog_body i lv f ln msg sn s)) = mem (snd s)"
  "heapTop (snd (doLog_body i lv f ln msg sn s)) = heapTop (snd s)"
  "nextAlloc (snd (doLog_body i lv f ln msg sn s)) = nextAlloc (snd s)"
  "freed (snd (doLog_body i lv f ln msg sn s)) = freed (snd s)"
  "clock (snd (doLog_body i lv f ln msg sn s)) = clock (snd s)"
  by (simp_all add: doLog_body_def makeLogMessage_def Let_def split: option.splits)

lemma doLog_body_subs:
  "subscriptions (adminLog (snd (doLog_body i lv f ln msg sn s))) =
     (subscriptions (adminLog (snd s)))
       (i := fst (snd (isMatch (mem (snd s)) (subscriptions (adminLog (snd s)) i)
                         (fileNames (adminLog (snd s))) lv f ln)))"
  by (simp add: doLog_body_def makeLogMessage_def Let_def split: option.splits)

lemma doLog_body_fileNames:
  "fileNames (adminLog (snd (doLog_body i lv f ln msg sn s))) =
     snd (snd (isMatch (mem (snd s)) (subscriptions (adminLog (snd s)) i)
                         (fileNames (adminLog (snd s))) lv f ln))"
  by (simp add: doLog_body_def makeLogMessage_def Let_def split: option.splits)

lemma doLog_body_ids:
  "streamId (subscriptions (adminLog (snd (doLog_body i lv f ln msg sn s))) j)
     = streamId (subscriptions (adminLog (snd s)) j)"
  "txid (subscriptions (adminLog (snd (doLog_body i lv f ln msg sn s))) j)
     = txid (subscriptions (adminLog (snd s)) j)"
  "level (subscriptions (adminLog (snd (doLog_body i lv f ln msg sn s))) j)
     = level (subscriptions (adminLog (snd s)) j)"
  "lineNum (subscriptions (adminLog (snd (doLog_body i lv f ln msg sn s))) j)
     = lineNum (subscriptions (adminLog (snd s)) j)"
  "alloc (subscriptions (adminLog (snd (doLog_body i lv f ln msg sn s))) j)
     = alloc (subscriptions (adminLog (snd s)) j)"
  by (simp_all add: doLog_body_subs isMatch_ids)


lemma doLog_loop_frame:
  "subscriptionCount (adminLog (snd (doLog_loop i lv f ln msg sn s))) = subscriptionCount (adminLog (snd s))
   \<and> mem (snd (doLog_loop i lv f ln msg sn s)) = mem (snd s)
   \<and> heapTop (snd (doLog_loop i lv f ln msg sn s)) = heapTop (snd s)
   \<and> nextAlloc (snd (doLog_loop i lv f ln msg sn s)) = nextAlloc (snd s)
   \<and> freed (snd (doLog_loop i lv f ln msg sn s)) = freed (snd s)
   \<and> clock (snd (doLog_loop i lv f ln msg sn s)) = clock (snd s)"
proof (induction i lv f ln msg sn s rule: doLog_loop.induct)
  case (1 i lv f ln msg sn s)
  show ?case
  proof (cases "i < subscriptionCount (adminLog (snd s))")
    case True
    have eq: "doLog_loop i lv f ln msg sn s
                = doLog_loop (i + 1) lv f ln msg sn (doLog_body i lv f ln msg sn s)"
      using True by (subst doLog_loop.simps) simp
    show ?thesis unfolding eq using 1[OF True] by (simp add: doLog_body_frame)
  next
    case False
    then show ?thesis by (subst (1 2 3 4 5 6) doLog_loop.simps) simp
  qed
qed

lemma doLog_loop_ids:
  "streamId (subscriptions (adminLog (snd (doLog_loop i lv f ln msg sn s))) j)
     = streamId (subscriptions (adminLog (snd s)) j)
   \<and> txid (subscriptions (adminLog (snd (doLog_loop i lv f ln msg sn s))) j)
     = txid (subscriptions (adminLog (snd s)) j)
   \<and> level (subscriptions (adminLog (snd (doLog_loop i lv f ln msg sn s))) j)
     = level (subscriptions (adminLog (snd s)) j)
   \<and> lineNum (subscriptions (adminLog (snd (doLog_loop i lv f ln msg sn s))) j)
     = lineNum (subscriptions (adminLog (snd s)) j)
   \<and> alloc (subscriptions (adminLog (snd (doLog_loop i lv f ln msg sn s))) j)
     = alloc (subscriptions (adminLog (snd s)) j)"
proof (induction i lv f ln msg sn s rule: doLog_loop.induct)
  case (1 i lv f ln msg sn s)
  show ?case
  proof (cases "i < subscriptionCount (adminLog (snd s))")
    case True
    have eq: "doLog_loop i lv f ln msg sn s
                = doLog_loop (i + 1) lv f ln msg sn (doLog_body i lv f ln msg sn s)"
      using True by (subst doLog_loop.simps) simp
    show ?thesis unfolding eq using 1[OF True] by (simp add: doLog_body_ids)
  next
    case False
    then have eq: "doLog_loop i lv f ln msg sn s = s" by (subst doLog_loop.simps) simp
    show ?thesis unfolding eq by simp
  qed
qed


lemma doLog_ids:
  "subscriptionCount (adminLog (doLog lv f ln msg sn w)) = subscriptionCount (adminLog w)"
  "streamId (subscriptions (adminLog (doLog lv f ln msg sn w)) j) = streamId (subscriptions (adminLog w) j)"
  "txid (subscriptions (adminLog (doLog lv f ln msg sn w)) j) = txid (subscriptions (adminLog w) j)"
  using doLog_loop_frame[of 0 lv f ln msg sn "(None, w)"] doLog_loop_ids[of 0 lv f ln msg sn "(None, w)" j]
  by (simp_all add: doLog_def)

text \<open>
  C2, which the code does not do. Two subscriptions with the stream ids 1 and 2 both match
  the event. \<open>doLog\<close> builds the message once, at the first match (the clock is read
  once), and sends that one \<open>Dict\<close> to both transaction ids: its \<open>streamId\<close> entry is the
  same in both deliveries, whatever value \<open>streamNum\<close> received, so it cannot be the
  stream id of each of the two subscriptions.
\<close>

theorem doLog_same_message_for_all:
  "subscriptionCount (adminLog twoSubscribers) = 2
   \<and> streamId (subscriptions (adminLog twoSubscribers) 0) = 1
   \<and> streamId (subscriptions (adminLog twoSubscribers) 1) = 2
   \<and> drop (length (sent twoSubscribers)) (sent (doLog Log_Level_ERROR 1 42 ''boom'' streamNum twoSubscribers)) =
       [([(''streamId'', Int_OBJ (uint streamNum)), (''time'', Int_OBJ 1000),
          (''level'', String_OBJ ''ERROR''), (''file'', String_OBJ ''net.c''),
          (''line'', Int_OBJ 42), (''message'', String_OBJ ''boom'')], ''tx1''),
        ([(''streamId'', Int_OBJ (uint streamNum)), (''time'', Int_OBJ 1000),
          (''level'', String_OBJ ''ERROR''), (''file'', String_OBJ ''net.c''),
          (''line'', Int_OBJ 42), (''message'', String_OBJ ''boom'')], ''tx2'')]
   \<and> timeCalls (doLog Log_Level_ERROR 1 42 ''boom'' streamNum twoSubscribers) = timeCalls twoSubscribers + 1"
  unfolding twoSubscribers_def by code_simp

section \<open>Stream ids and their hex form\<close>

lemma uint64_step:
  "(ucast (ucast (w :: 64 word) :: 8 word) :: 64 word) OR push_bit 8 (take_bit k (drop_bit 8 w))
     = take_bit (8 + k) w"
  by (rule bit_word_eqI) (auto simp: bit_simps)

lemma uint64_of_le_bytes: "uint64_of_bytes (le_bytes n w) = take_bit (8 * n) w"
proof (induction n arbitrary: w)
  case 0
  show ?case by (simp add: uint64_of_bytes_def)
next
  case (Suc n)
  have "uint64_of_bytes (le_bytes (Suc n) w)
          = ucast (ucast w :: 8 word) OR push_bit 8 (uint64_of_bytes (le_bytes n (drop_bit 8 w)))"
    by (simp add: uint64_of_bytes_def)
  also have "\<dots> = take_bit (8 + 8 * n) w" by (simp only: Suc uint64_step)
  finally show ?case by simp
qed

lemma uint64_of_bytes_of_uint64: "uint64_of_bytes (bytes_of_uint64 w) = w"
  by (simp add: bytes_of_uint64_def uint64_of_le_bytes take_bit_word_eq_self)

lemma length_le_bytes: "length (le_bytes n w) = n"
  by (induction n arbitrary: w) auto

lemma hexValue_hexDigit_all: "list_all (\<lambda>n. hexValue (hexDigit n) = Some n) [0..<16]"
  by code_simp

lemma hexValue_hexDigit: "n < 16 \<Longrightarrow> hexValue (hexDigit n) = Some n"
  using hexValue_hexDigit_all by (simp add: list_all_iff)

lemma Hex_decode_encode: "Hex_decode (Hex_encode bs) = Some bs"
proof (induction bs)
  case Nil
  show ?case by simp
next
  case (Cons b bs)
  have "unat b < 256" using unsigned_less[of b] by simp
  then have "unat b div 16 < 16" by simp
  moreover have "(of_nat (16 * (unat b div 16) + unat b mod 16) :: 8 word) = b" by simp
  ultimately show ?case using Cons by (simp add: hexValue_hexDigit del: of_nat_add of_nat_mult)
qed

lemma length_Hex_encode: "length (Hex_encode bs) = 2 * length bs"
  by (induction bs) auto

lemma streamId_hex:
  "length (Hex_encode (bytes_of_uint64 sid)) = 16"
  "Hex_decode (Hex_encode (bytes_of_uint64 sid)) = Some (bytes_of_uint64 sid)"
  "length (bytes_of_uint64 sid) = 8"
  by (simp_all add: length_Hex_encode Hex_decode_encode bytes_of_uint64_def length_le_bytes)

section \<open>What unsubscribe leaves live\<close>

lemma unsubscribe_loop_live:
  "subscriptionCount (adminLog (snd (unsubscribe_loop i sid w))) \<le> subscriptionCount (adminLog w)
   \<and> (\<forall>j < subscriptionCount (adminLog (snd (unsubscribe_loop i sid w))).
         \<exists>j' < subscriptionCount (adminLog w).
           subscriptions (adminLog (snd (unsubscribe_loop i sid w))) j = subscriptions (adminLog w) j')"
proof (induction i sid w rule: unsubscribe_loop.induct)
  case (1 i sid w)
  show ?case
  proof (cases "i < subscriptionCount (adminLog w)")
    case False
    then have eq: "unsubscribe_loop i sid w = (NotFound, w)" by (subst unsubscribe_loop.simps) simp
    show ?thesis unfolding eq by auto
  next
    case True
    show ?thesis
    proof (cases "sid = streamId (subscriptions (adminLog w) i)")
      case ne: False
      have eq: "unsubscribe_loop i sid w = unsubscribe_loop (i + 1) sid w"
        using True ne by (subst unsubscribe_loop.simps) simp
      show ?thesis unfolding eq using 1[OF True ne] .
    next
      case hit: True
      have eq: "unsubscribe_loop i sid w =
        (''none'',
         w\<lparr>freed := freed w @ [alloc (subscriptions (adminLog w) i)],
           adminLog := (adminLog w)
             \<lparr>subscriptions := (subscriptions (adminLog w))
                                 (i := subscriptions (adminLog w) (subscriptionCount (adminLog w) - 1)),
              subscriptionCount := subscriptionCount (adminLog w) - 1\<rparr>\<rparr>)"
        by (rule unsubscribe_loop_first[OF le_refl True _ hit[symmetric]]) auto
      have "\<exists>j' < subscriptionCount (adminLog w).
              ((subscriptions (adminLog w))
                 (i := subscriptions (adminLog w) (subscriptionCount (adminLog w) - 1))) j
                = subscriptions (adminLog w) j'"
        if "j < subscriptionCount (adminLog w) - 1" for j
      proof (cases "j = i")
        case True
        then show ?thesis using that
          by (intro exI[of _ "subscriptionCount (adminLog w) - 1"]) simp
      next
        case False
        then show ?thesis using that by (intro exI[of _ j]) simp
      qed
      then show ?thesis unfolding eq by simp

    qed
  qed
qed

lemma unsubscribe_live:
  "subscriptionCount (adminLog (unsubscribe h t w)) \<le> subscriptionCount (adminLog w)
   \<and> (\<forall>j < subscriptionCount (adminLog (unsubscribe h t w)).
         \<exists>j' < subscriptionCount (adminLog w).
           subscriptions (adminLog (unsubscribe h t w)) j = subscriptions (adminLog w) j')"
proof -
  have triv: "subscriptionCount (adminLog w) \<le> subscriptionCount (adminLog w)
      \<and> (\<forall>j < subscriptionCount (adminLog w). \<exists>j' < subscriptionCount (adminLog w).
             subscriptions (adminLog w) j = subscriptions (adminLog w) j')"
    by auto
  have frame: "adminLog (sendError e t v) = adminLog v" for e v
    by (simp add: sendError_def Admin_sendMessage_def)
  show ?thesis
  proof (cases "length h \<noteq> 16")
    case True
    then show ?thesis using triv by (simp add: unsubscribe_def frame)
  next
    case len: False
    show ?thesis
    proof (cases "Hex_decode h")
      case None
      then show ?thesis using triv len by (simp add: unsubscribe_def frame)
    next
      case (Some bs)
      show ?thesis
      proof (cases "length bs \<noteq> 8")
        case True
        then show ?thesis using triv len Some by (simp add: unsubscribe_def frame)
      next
        case False
        then have "unsubscribe h t w = sendError (fst (unsubscribe_loop 0 (uint64_of_bytes bs) w)) t
                     (snd (unsubscribe_loop 0 (uint64_of_bytes bs) w))"
          using len Some by (simp add: unsubscribe_def Let_def)
        then show ?thesis using unsubscribe_loop_live[of 0 "uint64_of_bytes bs" w] by (simp add: frame)
      qed
    qed
  qed
qed

section \<open>Promotion and the table during a log call\<close>

lemma isMatch_fst:
  "fst (isMatch m sub fns logLevel fileName line) \<longleftrightarrow>
      (filePtr sub = NULL
         \<or> (internalName sub \<and> fileName = filePtr sub)
         \<or> (\<not> internalName sub \<and> m fileName = m (filePtr sub)))
      \<and> Log_Level_val (level sub) \<le> Log_Level_val logLevel
      \<and> (lineNum sub = 0 \<or> line = word_of_int (lineNum sub))"
  by (auto simp: isMatch_def strcmp_def Let_def split: if_splits)

lemma isMatch_effect:
  "(fst (snd (isMatch m sub fns lv f ln)) = sub \<and> snd (snd (isMatch m sub fns lv f ln)) = fns)
   \<or> (\<not> internalName sub \<and> filePtr sub \<noteq> NULL \<and> m f = m (filePtr sub)
      \<and> fst (snd (isMatch m sub fns lv f ln)) = sub\<lparr>filePtr := f, internalName := True\<rparr>
      \<and> snd (snd (isMatch m sub fns lv f ln)) = internFileName 0 f fns)"
  by (auto simp: isMatch_def Let_def strcmp_def split: if_splits)

lemma internFileName_cases:
  assumes "hasEmptySlot fns"
  shows "\<exists>k<FILENAME_COUNT.
           (fns k = f \<and> internFileName 0 f fns = fns)
           \<or> (fns k = NULL \<and> internFileName 0 f fns = (fns(k := f))((k + 1) mod FILENAME_COUNT := NULL))"
proof -
  let ?P = "\<lambda>i. i < FILENAME_COUNT \<and> (fns i = f \<or> fns i = NULL)"
  define k where "k = (LEAST i. ?P i)"
  have ex: "\<exists>i. ?P i" using assms by (auto simp: hasEmptySlot_def)
  have Pk: "?P k" unfolding k_def using ex by (rule LeastI_ex)
  have before: "\<forall>j. 0 \<le> j \<and> j < k \<longrightarrow> fns j \<noteq> f \<and> fns j \<noteq> NULL"
  proof (intro allI impI)
    fix j assume j: "0 \<le> j \<and> j < k"
    then have "\<not> ?P j" unfolding k_def using not_less_Least by blast
    moreover have "j < FILENAME_COUNT" using j Pk by simp
    ultimately show "fns j \<noteq> f \<and> fns j \<noteq> NULL" by simp
  qed
  have eq: "internFileName 0 f fns =
     (if fns k = f then fns
      else if fns k = NULL then (fns(k := f))((k + 1) mod FILENAME_COUNT := NULL)
      else internFileName (k + 1) f fns)"
    using internFileName_skip[of 0 k fns f] Pk before by simp
  show ?thesis
  proof (cases "fns k = f")
    case True
    then show ?thesis using eq Pk by auto
  next
    case False
    then have "fns k = NULL" using Pk by simp
    then show ?thesis using eq False Pk by auto
  qed
qed

lemma internFileName_keeps_empty: "hasEmptySlot fns \<Longrightarrow> hasEmptySlot (internFileName 0 f fns)"
proof -
  assume h: "hasEmptySlot fns"
  from internFileName_cases[OF h, of f] obtain k where k: "k < FILENAME_COUNT"
    and c: "(fns k = f \<and> internFileName 0 f fns = fns)
           \<or> (fns k = NULL \<and> internFileName 0 f fns = (fns(k := f))((k + 1) mod FILENAME_COUNT := NULL))"
    by blast
  from c show ?thesis
  proof
    assume "fns k = f \<and> internFileName 0 f fns = fns"
    then show ?thesis using h by simp
  next
    assume a: "fns k = NULL \<and> internFileName 0 f fns = (fns(k := f))((k + 1) mod FILENAME_COUNT := NULL)"
    have "(k + 1) mod FILENAME_COUNT < FILENAME_COUNT" by (simp add: FILENAME_COUNT_def)
    moreover have "internFileName 0 f fns ((k + 1) mod FILENAME_COUNT) = NULL" using a by simp
    ultimately show ?thesis unfolding hasEmptySlot_def by blast
  qed
qed

lemma internFileName_enters: "hasEmptySlot fns \<Longrightarrow> inTable f (internFileName 0 f fns)"
proof -
  assume h: "hasEmptySlot fns"
  from internFileName_cases[OF h, of f] obtain k where k: "k < FILENAME_COUNT"
    and c: "(fns k = f \<and> internFileName 0 f fns = fns)
           \<or> (fns k = NULL \<and> internFileName 0 f fns = (fns(k := f))((k + 1) mod FILENAME_COUNT := NULL))"
    by blast
  from c show ?thesis
  proof
    assume "fns k = f \<and> internFileName 0 f fns = fns"
    then show ?thesis using k unfolding inTable_def by auto
  next
    assume a: "fns k = NULL \<and> internFileName 0 f fns = (fns(k := f))((k + 1) mod FILENAME_COUNT := NULL)"
    have "(k + 1) mod FILENAME_COUNT \<noteq> k" using k by (auto simp: FILENAME_COUNT_def mod_Suc)
    then have "internFileName 0 f fns k = f" using a by simp
    then show ?thesis using k unfolding inTable_def by blast
  qed
qed

lemma internFileName_entries:
  "internFileName i f fns q = fns q \<or> internFileName i f fns q = f \<or> internFileName i f fns q = NULL"
proof (induction i f fns rule: internFileName.induct)
  case (1 i f fns)
  show ?case
  proof (cases "i < FILENAME_COUNT")
    case False
    then show ?thesis by (subst (1 2 3) internFileName.simps) simp
  next
    case True
    show ?thesis
    proof (cases "fns i = f")
      case hit: True
      then show ?thesis using True by (subst (1 2 3) internFileName.simps) simp
    next
      case nf: False
      show ?thesis
      proof (cases "fns i = NULL")
        case e: True
        have "internFileName i f fns = (fns(i := f))((i + 1) mod FILENAME_COUNT := NULL)"
          using True nf e by (subst internFileName.simps) simp
        then show ?thesis by auto
      next
        case ne: False
        have "internFileName i f fns = internFileName (i + 1) f fns"
          using True nf ne by (subst internFileName.simps) simp
        then show ?thesis using 1[OF True nf ne] by simp
      qed
    qed
  qed
qed

lemma doLog_frame:
  "mem (doLog lv f ln msg sn w) = mem w"
  "heapTop (doLog lv f ln msg sn w) = heapTop w"
  "freed (doLog lv f ln msg sn w) = freed w"
  "nextAlloc (doLog lv f ln msg sn w) = nextAlloc w"
  using doLog_loop_frame[of 0 lv f ln msg sn "(None, w)"] by (simp_all add: doLog_def)

lemma doLog_two:
  assumes "subscriptionCount (adminLog w) = 2"
  shows "doLog lv f ln msg sn w
           = snd (doLog_body 1 lv f ln msg sn (doLog_body 0 lv f ln msg sn (None, w)))"
proof -
  let ?s0 = "(None :: Dict option, w)"
  let ?s1 = "doLog_body 0 lv f ln msg sn ?s0"
  let ?s2 = "doLog_body 1 lv f ln msg sn ?s1"
  have c1: "subscriptionCount (adminLog (snd ?s1)) = 2" using assms by (simp add: doLog_body_frame)
  have c2: "subscriptionCount (adminLog (snd ?s2)) = 2" using c1 by (simp add: doLog_body_frame)
  have "doLog_loop 0 lv f ln msg sn ?s0 = doLog_loop 1 lv f ln msg sn ?s1"
    using assms by (subst doLog_loop.simps) simp
  also have "\<dots> = doLog_loop 2 lv f ln msg sn ?s2"
    using c1 by (subst doLog_loop.simps) (simp add: numeral_2_eq_2)
  also have "\<dots> = ?s2"
    using c2 by (subst doLog_loop.simps) simp
  finally show ?thesis by (simp add: doLog_def)
qed

lemma doLog_body_effect:
  "(subscriptions (adminLog (snd (doLog_body i lv f ln msg sn s))) = subscriptions (adminLog (snd s))
      \<and> fileNames (adminLog (snd (doLog_body i lv f ln msg sn s))) = fileNames (adminLog (snd s)))
   \<or> (\<not> internalName (subscriptions (adminLog (snd s)) i)
      \<and> filePtr (subscriptions (adminLog (snd s)) i) \<noteq> NULL
      \<and> mem (snd s) f = mem (snd s) (filePtr (subscriptions (adminLog (snd s)) i))
      \<and> subscriptions (adminLog (snd (doLog_body i lv f ln msg sn s)))
           = (subscriptions (adminLog (snd s)))
               (i := (subscriptions (adminLog (snd s)) i)\<lparr>filePtr := f, internalName := True\<rparr>)
      \<and> fileNames (adminLog (snd (doLog_body i lv f ln msg sn s)))
           = internFileName 0 f (fileNames (adminLog (snd s))))"
  using isMatch_effect[of "mem (snd s)" "subscriptions (adminLog (snd s)) i" "fileNames (adminLog (snd s))" lv f ln]
  by (auto simp: doLog_body_subs doLog_body_fileNames)

lemma doLog_body_table:
  assumes "hasEmptySlot (fileNames (adminLog (snd s)))"
  shows "hasEmptySlot (fileNames (adminLog (snd (doLog_body i lv f ln msg sn s))))"
    and "inTable f (fileNames (adminLog (snd s)))
           \<Longrightarrow> inTable f (fileNames (adminLog (snd (doLog_body i lv f ln msg sn s))))"
    and "fileNames (adminLog (snd (doLog_body i lv f ln msg sn s))) q = fileNames (adminLog (snd s)) q
         \<or> fileNames (adminLog (snd (doLog_body i lv f ln msg sn s))) q = f
         \<or> fileNames (adminLog (snd (doLog_body i lv f ln msg sn s))) q = NULL"
proof -
  let ?t = "fileNames (adminLog (snd s))"
  let ?t' = "fileNames (adminLog (snd (doLog_body i lv f ln msg sn s)))"
  have c: "?t' = ?t \<or> ?t' = internFileName 0 f ?t"
    using doLog_body_effect[of i lv f ln msg sn s] by auto
  show "hasEmptySlot ?t'" using c assms internFileName_keeps_empty[of ?t f] by auto
  show "inTable f ?t \<Longrightarrow> inTable f ?t'" using c assms internFileName_enters[of ?t f] by auto
  show "?t' q = ?t q \<or> ?t' q = f \<or> ?t' q = NULL"
    using c internFileName_entries[of 0 f ?t q] by auto
qed

lemma doLog_loop_table:
  "hasEmptySlot (fileNames (adminLog (snd s))) \<Longrightarrow>
     hasEmptySlot (fileNames (adminLog (snd (doLog_loop i lv f ln msg sn s))))
     \<and> (inTable f (fileNames (adminLog (snd s)))
          \<longrightarrow> inTable f (fileNames (adminLog (snd (doLog_loop i lv f ln msg sn s)))))
     \<and> (\<forall>q. fileNames (adminLog (snd (doLog_loop i lv f ln msg sn s))) q = fileNames (adminLog (snd s)) q
            \<or> fileNames (adminLog (snd (doLog_loop i lv f ln msg sn s))) q = f
            \<or> fileNames (adminLog (snd (doLog_loop i lv f ln msg sn s))) q = NULL)"
proof (induction i lv f ln msg sn s rule: doLog_loop.induct)
  case (1 i lv f ln msg sn s)
  show ?case
  proof (cases "i < subscriptionCount (adminLog (snd s))")
    case False
    then have eq: "doLog_loop i lv f ln msg sn s = s" by (subst doLog_loop.simps) simp
    show ?thesis unfolding eq using 1(2) by simp
  next
    case True
    let ?s1 = "doLog_body i lv f ln msg sn s"
    have eq: "doLog_loop i lv f ln msg sn s = doLog_loop (i + 1) lv f ln msg sn ?s1"
      using True by (subst doLog_loop.simps) simp
    note b = doLog_body_table[OF 1(2), where i=i and lv=lv and f=f and ln=ln and msg=msg and sn=sn]
    note ih = 1(1)[OF True b(1)]
    have e: "hasEmptySlot (fileNames (adminLog (snd (doLog_loop (i + 1) lv f ln msg sn ?s1))))"
      using ih by blast
    have t: "inTable f (fileNames (adminLog (snd (doLog_loop (i + 1) lv f ln msg sn ?s1))))"
      if "inTable f (fileNames (adminLog (snd s)))"
      using ih b(2)[OF that] by blast
    have q: "fileNames (adminLog (snd (doLog_loop (i + 1) lv f ln msg sn ?s1))) q = fileNames (adminLog (snd s)) q
            \<or> fileNames (adminLog (snd (doLog_loop (i + 1) lv f ln msg sn ?s1))) q = f
            \<or> fileNames (adminLog (snd (doLog_loop (i + 1) lv f ln msg sn ?s1))) q = NULL" for q
    proof -
      have "fileNames (adminLog (snd (doLog_loop (i + 1) lv f ln msg sn ?s1))) q = fileNames (adminLog (snd ?s1)) q
            \<or> fileNames (adminLog (snd (doLog_loop (i + 1) lv f ln msg sn ?s1))) q = f
            \<or> fileNames (adminLog (snd (doLog_loop (i + 1) lv f ln msg sn ?s1))) q = NULL"
        using ih by blast
      then show ?thesis using b(3)[of q] by auto
    qed
    show ?thesis unfolding eq using e t q by blast
  qed
qed

lemma doLog_loop_promotes:
  "hasEmptySlot (fileNames (adminLog (snd s))) \<Longrightarrow>
     subscriptions (adminLog (snd (doLog_loop i lv f ln msg sn s))) j = subscriptions (adminLog (snd s)) j
     \<or> (\<not> internalName (subscriptions (adminLog (snd s)) j)
        \<and> filePtr (subscriptions (adminLog (snd s)) j) \<noteq> NULL
        \<and> mem (snd s) f = mem (snd s) (filePtr (subscriptions (adminLog (snd s)) j))
        \<and> subscriptions (adminLog (snd (doLog_loop i lv f ln msg sn s))) j
             = (subscriptions (adminLog (snd s)) j)\<lparr>filePtr := f, internalName := True\<rparr>
        \<and> inTable f (fileNames (adminLog (snd (doLog_loop i lv f ln msg sn s)))))"
proof (induction i lv f ln msg sn s rule: doLog_loop.induct)
  case (1 i lv f ln msg sn s)
  show ?case
  proof (cases "i < subscriptionCount (adminLog (snd s))")
    case False
    then have eq: "doLog_loop i lv f ln msg sn s = s" by (subst doLog_loop.simps) simp
    show ?thesis unfolding eq by simp
  next
    case True
    let ?s1 = "doLog_body i lv f ln msg sn s"
    let ?s' = "doLog_loop (i + 1) lv f ln msg sn ?s1"
    have eq: "doLog_loop i lv f ln msg sn s = ?s'"
      using True by (subst doLog_loop.simps) simp
    note b = doLog_body_table[OF 1(2), where i=i and lv=lv and f=f and ln=ln and msg=msg and sn=sn]
    note ih = 1(1)[OF True b(1)]
    note tb = doLog_loop_table[OF b(1), of "i + 1" lv f ln msg sn]
    have m1: "mem (snd ?s1) = mem (snd s)" by (simp add: doLog_body_frame)
    from doLog_body_effect[of i lv f ln msg sn s]
    show ?thesis
    proof
      assume same: "subscriptions (adminLog (snd ?s1)) = subscriptions (adminLog (snd s))
                      \<and> fileNames (adminLog (snd ?s1)) = fileNames (adminLog (snd s))"
      show ?thesis unfolding eq using ih same m1 by simp
    next
      assume pr: "\<not> internalName (subscriptions (adminLog (snd s)) i)
          \<and> filePtr (subscriptions (adminLog (snd s)) i) \<noteq> NULL
          \<and> mem (snd s) f = mem (snd s) (filePtr (subscriptions (adminLog (snd s)) i))
          \<and> subscriptions (adminLog (snd ?s1))
               = (subscriptions (adminLog (snd s)))
                   (i := (subscriptions (adminLog (snd s)) i)\<lparr>filePtr := f, internalName := True\<rparr>)
          \<and> fileNames (adminLog (snd ?s1)) = internFileName 0 f (fileNames (adminLog (snd s)))"
      have in1: "inTable f (fileNames (adminLog (snd ?s1)))"
        using pr internFileName_enters[OF 1(2), of f] by simp
      then have in': "inTable f (fileNames (adminLog (snd ?s')))" using tb by blast
      show ?thesis
      proof (cases "j = i")
        case False
        then have "subscriptions (adminLog (snd ?s1)) j = subscriptions (adminLog (snd s)) j"
          using pr by simp
        then show ?thesis unfolding eq using ih m1 by simp
      next
        case True
        have s1j: "subscriptions (adminLog (snd ?s1)) j
                     = (subscriptions (adminLog (snd s)) j)\<lparr>filePtr := f, internalName := True\<rparr>"
          using pr True by simp
        then have "internalName (subscriptions (adminLog (snd ?s1)) j)" by simp
        then have "subscriptions (adminLog (snd ?s')) j = subscriptions (adminLog (snd ?s1)) j"
          using ih by blast
        then show ?thesis unfolding eq using s1j pr True in' by simp
      qed
    qed
  qed
qed

lemma doLog_table:
  "hasEmptySlot (fileNames (adminLog w)) \<Longrightarrow>
     hasEmptySlot (fileNames (adminLog (doLog lv f ln msg sn w)))
     \<and> (\<forall>q. fileNames (adminLog (doLog lv f ln msg sn w)) q = fileNames (adminLog w) q
            \<or> fileNames (adminLog (doLog lv f ln msg sn w)) q = f
            \<or> fileNames (adminLog (doLog lv f ln msg sn w)) q = NULL)"
  using doLog_loop_table[of "(None, w)" 0 lv f ln msg sn] by (simp add: doLog_def)

lemma doLog_promotes:
  "hasEmptySlot (fileNames (adminLog w)) \<Longrightarrow>
     subscriptions (adminLog (doLog lv f ln msg sn w)) j = subscriptions (adminLog w) j
     \<or> (\<not> internalName (subscriptions (adminLog w) j)
        \<and> filePtr (subscriptions (adminLog w) j) \<noteq> NULL
        \<and> mem w f = mem w (filePtr (subscriptions (adminLog w) j))
        \<and> subscriptions (adminLog (doLog lv f ln msg sn w)) j
             = (subscriptions (adminLog w) j)\<lparr>filePtr := f, internalName := True\<rparr>
        \<and> inTable f (fileNames (adminLog (doLog lv f ln msg sn w))))"
  using doLog_loop_promotes[of "(None, w)" 0 lv f ln msg sn j] by (simp add: doLog_def)

section \<open>Runs\<close>

lemma run_append: "run (as @ bs) w = run bs (run as w)"
  by (simp add: run_def)

lemma run_Cons: "run (c # cs) w = run cs (call c w)"
  by (simp add: run_def)

lemma run_Nil: "run [] w = w"
  by (simp add: run_def)

lemma run_snoc: "run (cs @ [c]) w = call c (run cs w)"
  by (simp add: run_def)

lemma subscribe_accepted_frame:
  "subscribeAccepts args w \<Longrightarrow>
     fileNames (adminLog (subscribe args t rnd w)) = fileNames (adminLog w)
     \<and> freed (subscribe args t rnd w) = freed w
     \<and> clock (subscribe args t rnd w) = clock w
     \<and> timeCalls (subscribe args t rnd w) = timeCalls w
     \<and> nextAlloc (subscribe args t rnd w) = nextAlloc w + 1
     \<and> level (subscriptions (adminLog (subscribe args t rnd w)) (subscriptionCount (adminLog w)))
          = (case Dict_getString args ''level'' of Some n \<Rightarrow> Log_levelForName n | None \<Rightarrow> Log_Level_DEBUG)
     \<and> lineNum (subscriptions (adminLog (subscribe args t rnd w)) (subscriptionCount (adminLog w)))
          = (case Dict_getInt args ''line'' of Some l \<Rightarrow> bitfield31 l | None \<Rightarrow> 0)"
  by (auto simp: subscribeAccepts_def subscribe_def Let_def not_less Admin_sendMessage_def split: option.splits)

lemma subscribe_mem:
  "(\<forall>p\<le>heapTop w. mem (subscribe args t rnd w) p = mem w p) \<and> heapTop w \<le> heapTop (subscribe args t rnd w)"
  by (auto simp: subscribe_def Let_def sendError_def Admin_sendMessage_def split: option.splits)

lemma unsubscribe_frame:
  "fileNames (adminLog (unsubscribe h t w)) = fileNames (adminLog w)"
  "mem (unsubscribe h t w) = mem w"
  "heapTop (unsubscribe h t w) = heapTop w"
proof -
  have l: "fileNames (adminLog (snd (unsubscribe_loop i sid v))) = fileNames (adminLog v)
           \<and> mem (snd (unsubscribe_loop i sid v)) = mem v
           \<and> heapTop (snd (unsubscribe_loop i sid v)) = heapTop v" for i sid v
  proof (induction i sid v rule: unsubscribe_loop.induct)
    case (1 i sid v)
    show ?case using 1 by (subst (1 2 3) unsubscribe_loop.simps) (simp add: Let_def)
  qed
  show "fileNames (adminLog (unsubscribe h t w)) = fileNames (adminLog w)"
    by (simp add: unsubscribe_def sendError_def Admin_sendMessage_def Let_def l split: option.splits)
  show "mem (unsubscribe h t w) = mem w"
    by (simp add: unsubscribe_def sendError_def Admin_sendMessage_def Let_def l split: option.splits)
  show "heapTop (unsubscribe h t w) = heapTop w"
    by (simp add: unsubscribe_def sendError_def Admin_sendMessage_def Let_def l split: option.splits)
qed

lemma registerNew_hasEmptySlot: "hasEmptySlot (fileNames (adminLog (AdminLog_registerNew m hi clk)))"
  by (auto simp: hasEmptySlot_def AdminLog_registerNew_def FILENAME_COUNT_def intro: exI[of _ 0])

lemma call_keeps_empty:
  "hasEmptySlot (fileNames (adminLog w)) \<Longrightarrow> hasEmptySlot (fileNames (adminLog (call c w)))"
proof (cases c)
  case (Subscribe a t r)
  assume "hasEmptySlot (fileNames (adminLog w))"
  then show ?thesis using Subscribe by (simp add: subscribe_fileNames)
next
  case (Unsubscribe h t)
  assume "hasEmptySlot (fileNames (adminLog w))"
  then show ?thesis using Unsubscribe by (simp add: unsubscribe_frame)
next
  case (DoLog lv f ln msg sn)
  assume "hasEmptySlot (fileNames (adminLog w))"
  then show ?thesis using DoLog doLog_table[of w lv f ln msg sn] by simp
qed

lemma call_internal_origin:
  assumes e: "hasEmptySlot (fileNames (adminLog w))"
    and i: "i < subscriptionCount (adminLog (call c w))"
    and int: "internalName (subscriptions (adminLog (call c w)) i)"
    and fp: "filePtr (subscriptions (adminLog (call c w)) i) \<noteq> NULL"
  shows "inTable (filePtr (subscriptions (adminLog (call c w)) i)) (fileNames (adminLog (call c w)))
         \<or> (\<exists>j < subscriptionCount (adminLog w).
               subscriptions (adminLog (call c w)) i = subscriptions (adminLog w) j)"
proof (cases c)
  case (Subscribe a t r)
  show ?thesis
  proof (cases "subscribeAccepts a w")
    case False
    then have "adminLog (call c w) = adminLog w"
      using Subscribe by (simp add: subscribe_rejected sendError_def Admin_sendMessage_def)
    then show ?thesis using i by auto
  next
    case True
    have cnt: "subscriptionCount (adminLog (call c w)) = subscriptionCount (adminLog w) + 1"
      using Subscribe subscribe_accepted_count[OF True] by simp
    show ?thesis
    proof (cases "i = subscriptionCount (adminLog w)")
      case False
      then have "i < subscriptionCount (adminLog w)" using i cnt by simp
      moreover have "subscriptions (adminLog (call c w)) i = subscriptions (adminLog w) i"
        using Subscribe subscribe_accepted_others[OF True False] by simp
      ultimately show ?thesis by blast
    next
      case new: True
      have "inTable (filePtr (subscriptions (adminLog (call c w)) i)) (fileNames (adminLog w))"
        using subscribe_accepted_file[OF True, of t r] int fp Subscribe new
        by (auto simp: inTable_def split: option.splits)
      then show ?thesis using Subscribe by (simp add: subscribe_fileNames)
    qed
  qed
next
  case (Unsubscribe h t)
  then show ?thesis using unsubscribe_live[of h t w] i by auto
next
  case (DoLog lv f ln msg sn)
  have cnt: "subscriptionCount (adminLog (call c w)) = subscriptionCount (adminLog w)"
    using DoLog by (simp add: doLog_ids)
  from doLog_promotes[OF e, of lv f ln msg sn i]
  show ?thesis
  proof
    assume "subscriptions (adminLog (doLog lv f ln msg sn w)) i = subscriptions (adminLog w) i"
    then show ?thesis using DoLog i cnt by auto
  next
    assume "\<not> internalName (subscriptions (adminLog w) i)
        \<and> filePtr (subscriptions (adminLog w) i) \<noteq> NULL
        \<and> mem w f = mem w (filePtr (subscriptions (adminLog w) i))
        \<and> subscriptions (adminLog (doLog lv f ln msg sn w)) i
             = (subscriptions (adminLog w) i)\<lparr>filePtr := f, internalName := True\<rparr>
        \<and> inTable f (fileNames (adminLog (doLog lv f ln msg sn w)))"
    then show ?thesis using DoLog by simp
  qed
qed

lemma run_keeps_empty:
  "hasEmptySlot (fileNames (adminLog w)) \<Longrightarrow> hasEmptySlot (fileNames (adminLog (run cs w)))"
proof (induction cs rule: rev_induct)
  case Nil
  then show ?case by (simp add: run_def)
next
  case (snoc c cs)
  then show ?case by (simp add: run_snoc call_keeps_empty)
qed

lemma run_internal_origin:
  "hasEmptySlot (fileNames (adminLog w)) \<Longrightarrow>
   i < subscriptionCount (adminLog (run cs w)) \<Longrightarrow>
   internalName (subscriptions (adminLog (run cs w)) i) \<Longrightarrow>
   filePtr (subscriptions (adminLog (run cs w)) i) \<noteq> NULL \<Longrightarrow>
   subscriptionCount (adminLog w) = 0 \<Longrightarrow>
   \<exists>k\<le>length cs. inTable (filePtr (subscriptions (adminLog (run cs w)) i))
                      (fileNames (adminLog (run (take k cs) w)))"
proof (induction cs arbitrary: i rule: rev_induct)
  case Nil
  then show ?case by (simp add: run_def)
next
  case (snoc c cs)
  let ?v = "run cs w"
  have e: "hasEmptySlot (fileNames (adminLog ?v))" using snoc.prems(1) by (rule run_keeps_empty)
  have r: "run (cs @ [c]) w = call c ?v" by (rule run_snoc)
  from call_internal_origin[OF e, of i c] snoc.prems(2,3,4)
  have "inTable (filePtr (subscriptions (adminLog (call c ?v)) i)) (fileNames (adminLog (call c ?v)))
         \<or> (\<exists>j < subscriptionCount (adminLog ?v).
               subscriptions (adminLog (call c ?v)) i = subscriptions (adminLog ?v) j)"
    unfolding r by blast
  then show ?case
  proof
    assume "inTable (filePtr (subscriptions (adminLog (call c ?v)) i)) (fileNames (adminLog (call c ?v)))"
    then have "inTable (filePtr (subscriptions (adminLog (run (cs @ [c]) w)) i))
                 (fileNames (adminLog (run (take (length (cs @ [c])) (cs @ [c])) w)))"
      by (simp add: r)
    then show ?thesis by blast
  next
    assume "\<exists>j < subscriptionCount (adminLog ?v).
               subscriptions (adminLog (call c ?v)) i = subscriptions (adminLog ?v) j"
    then obtain j where j: "j < subscriptionCount (adminLog ?v)"
      and eq: "subscriptions (adminLog (call c ?v)) i = subscriptions (adminLog ?v) j" by blast
    have "internalName (subscriptions (adminLog ?v) j)" "filePtr (subscriptions (adminLog ?v) j) \<noteq> NULL"
      using snoc.prems(3,4) unfolding r eq by simp_all
    from snoc.IH[OF snoc.prems(1) j this snoc.prems(5)]
    obtain k where k: "k \<le> length cs"
      and t: "inTable (filePtr (subscriptions (adminLog ?v) j)) (fileNames (adminLog (run (take k cs) w)))"
      by blast
    have "take k (cs @ [c]) = take k cs" using k by simp
    then have "inTable (filePtr (subscriptions (adminLog (run (cs @ [c]) w)) i))
                 (fileNames (adminLog (run (take k (cs @ [c])) w)))"
      unfolding r eq using t by simp
    moreover have "k \<le> length (cs @ [c])" using k by simp
    ultimately show ?thesis by blast
  qed
qed

section \<open>Subscribe, then unsubscribe, then log\<close>


















section \<open>The table wraps around\<close>

lemma cycle_effect:
  assumes cnt: "subscriptionCount (adminLog w) = 1"
    and s0: "internalName (subscriptions (adminLog w) 0)" "filePtr (subscriptions (adminLog w) 0) \<noteq> NULL"
            "filePtr (subscriptions (adminLog w) 0) \<noteq> p" "streamId (subscriptions (adminLog w) 0) \<noteq> of_nat p"
    and tbl: "k < FILENAME_COUNT" "\<forall>j<k. fileNames (adminLog w) j \<noteq> NULL \<and> fileNames (adminLog w) j \<noteq> p"
             "fileNames (adminLog w) k = NULL"
    and noname: "\<forall>j<FILENAME_COUNT. fileNames (adminLog w) j = NULL
                   \<or> mem w (fileNames (adminLog w) j) \<noteq> exampleMem p"
    and memp: "mem w p = exampleMem p" and p: "p \<noteq> NULL" "p \<le> heapTop w"
    and pz: "cstring (exampleMem p) = exampleMem p"
  shows "subscriptionCount (adminLog (run (cycleCalls p) w)) = 1
     \<and> subscriptions (adminLog (run (cycleCalls p) w)) 0 = subscriptions (adminLog w) 0
     \<and> fileNames (adminLog (run (cycleCalls p) w))
          = ((fileNames (adminLog w))(k := p))((k + 1) mod FILENAME_COUNT := NULL)
     \<and> mem (run (cycleCalls p) w) = (mem w)(heapTop w + 1 := exampleMem p)
     \<and> heapTop (run (cycleCalls p) w) = heapTop w + 1"
proof -
  let ?args = "[(''file'', String_OBJ (exampleMem p))]"
  let ?w1 = "subscribe ?args ''tX'' (of_nat p) w"
  let ?w2 = "doLog Log_Level_ERROR p 10 ''m'' 0 ?w1"
  let ?w3 = "unsubscribe (Hex_encode (bytes_of_uint64 (of_nat p))) ''tX'' ?w2"
  let ?fns = "fileNames (adminLog w)"
  have run: "run (cycleCalls p) w = ?w3" by (simp add: cycleCalls_def run_def)
  have gs: "Dict_getString ?args ''file'' = Some (exampleMem p)" "Dict_getString ?args ''level'' = None"
    "Dict_getInt ?args ''line'' = None"
    by (simp_all add: Dict_getString_def Dict_getInt_def)
  have acc: "subscribeAccepts ?args w" by (simp add: subscribeAccepts_def gs cnt MAX_SUBSCRIPTIONS_def)
  have c1: "subscriptionCount (adminLog ?w1) = 2" using subscribe_accepted_count[OF acc] cnt by simp
  have sub0_1: "subscriptions (adminLog ?w1) 0 = subscriptions (adminLog w) 0"
    using subscribe_accepted_others[OF acc, of 0] cnt by simp
  have fn1: "fileNames (adminLog ?w1) = ?fns" by (rule subscribe_fileNames)
  have sid1: "streamId (subscriptions (adminLog ?w1) 1) = of_nat p"
    using subscribe_accepted_new[OF acc, of "''tX''" "of_nat p"] cnt by simp
  have file1: "\<not> internalName (subscriptions (adminLog ?w1) 1)
      \<and> filePtr (subscriptions (adminLog ?w1) 1) = heapTop w + 1
      \<and> mem ?w1 = (mem w)(heapTop w + 1 := exampleMem p)
      \<and> heapTop ?w1 = heapTop w + 1"
    using subscribe_accepted_file[OF acc, of "''tX''" "of_nat p"] noname
    by (auto simp: gs cnt pz)
  have ht1: "heapTop ?w1 = heapTop w + 1" using file1 by simp
  have mem1: "mem ?w1 = (mem w)(heapTop w + 1 := exampleMem p)" using file1 by simp
  let ?s1 = "doLog_body 0 Log_Level_ERROR p 10 ''m'' 0 (None, ?w1)"
  have w2: "?w2 = snd (doLog_body 1 Log_Level_ERROR p 10 ''m'' 0 ?s1)" by (rule doLog_two[OF c1])
  have m0: "isMatch (mem ?w1) (subscriptions (adminLog ?w1) 0) ?fns Log_Level_ERROR p 10
              = (False, subscriptions (adminLog ?w1) 0, ?fns)"
    using s0 unfolding sub0_1 by (simp add: isMatch_def)
  have s1_subs: "subscriptions (adminLog (snd ?s1)) = subscriptions (adminLog ?w1)"
    by (simp add: doLog_body_subs fn1 m0)
  have s1_fns: "fileNames (adminLog (snd ?s1)) = ?fns"
    by (simp add: doLog_body_fileNames fn1 m0)
  have s1_mem: "mem (snd ?s1) = mem ?w1" by (simp add: doLog_body_frame)
  have neq: "p \<noteq> heapTop w + 1" using p(2) by simp
  have cmp: "mem ?w1 p = mem ?w1 (heapTop w + 1)" using memp neq by (simp add: mem1)
  have m1: "snd (snd (isMatch (mem ?w1) (subscriptions (adminLog ?w1) 1) ?fns Log_Level_ERROR p 10))
              = internFileName 0 p ?fns"
    using file1 cmp by (simp add: isMatch_def strcmp_def NULL_def Let_def)
  have ins: "internFileName 0 p ?fns = (?fns(k := p))((k + 1) mod FILENAME_COUNT := NULL)"
    using internFileName_skip[of 0 k ?fns p] tbl p(1) by auto
  have "fileNames (adminLog ?w2)
          = snd (snd (isMatch (mem (snd ?s1)) (subscriptions (adminLog (snd ?s1)) 1)
                        (fileNames (adminLog (snd ?s1))) Log_Level_ERROR p 10))"
    unfolding w2 by (rule doLog_body_fileNames)
  also have "\<dots> = snd (snd (isMatch (mem ?w1) (subscriptions (adminLog ?w1) 1) ?fns Log_Level_ERROR p 10))"
    by (simp only: s1_subs s1_fns s1_mem)
  also have "\<dots> = (?fns(k := p))((k + 1) mod FILENAME_COUNT := NULL)"
    by (simp only: m1 ins)
  finally have fn2: "fileNames (adminLog ?w2) = (?fns(k := p))((k + 1) mod FILENAME_COUNT := NULL)" .
  have "subscriptions (adminLog ?w2) 0
          = ((subscriptions (adminLog (snd ?s1)))
               (1 := fst (snd (isMatch (mem (snd ?s1)) (subscriptions (adminLog (snd ?s1)) 1)
                        (fileNames (adminLog (snd ?s1))) Log_Level_ERROR p 10)))) 0"
    unfolding w2 by (simp only: doLog_body_subs)
  also have "\<dots> = subscriptions (adminLog (snd ?s1)) 0" by simp
  finally have sub0_2: "subscriptions (adminLog ?w2) 0 = subscriptions (adminLog w) 0"
    by (simp only: s1_subs sub0_1)
  have c2: "subscriptionCount (adminLog ?w2) = 2" using c1 by (simp add: doLog_ids)
  have sid2_0: "streamId (subscriptions (adminLog ?w2) 0) \<noteq> of_nat p"
    using s0(4) by (simp add: sub0_2)
  have sid2_1: "streamId (subscriptions (adminLog ?w2) 1) = of_nat p"
    using sid1 by (simp add: doLog_ids)
  have before: "\<forall>j. 0 \<le> j \<and> j < 1 \<longrightarrow> streamId (subscriptions (adminLog ?w2) j) \<noteq> of_nat p"
    using sid2_0 by auto
  have lt: "1 < subscriptionCount (adminLog ?w2)" using c2 by simp
  note loop = unsubscribe_loop_first[OF _ lt before sid2_1]
  have w3: "?w3 = sendError ''none'' ''tX''
      (?w2\<lparr>freed := freed ?w2 @ [alloc (subscriptions (adminLog ?w2) 1)],
          adminLog := (adminLog ?w2)
            \<lparr>subscriptions := (subscriptions (adminLog ?w2))
                                (1 := subscriptions (adminLog ?w2) (subscriptionCount (adminLog ?w2) - 1)),
             subscriptionCount := subscriptionCount (adminLog ?w2) - 1\<rparr>\<rparr>)"
    using loop by (simp add: unsubscribe_def streamId_hex uint64_of_bytes_of_uint64 Let_def)
  have r1: "subscriptionCount (adminLog ?w3) = 1"
    unfolding w3 using c2 by (simp add: sendError_def Admin_sendMessage_def)
  have r2: "subscriptions (adminLog ?w3) 0 = subscriptions (adminLog w) 0"
    unfolding w3 using sub0_2 by (simp add: sendError_def Admin_sendMessage_def)
  have r3: "fileNames (adminLog ?w3) = (?fns(k := p))((k + 1) mod FILENAME_COUNT := NULL)"
    unfolding w3 using fn2 by (simp add: sendError_def Admin_sendMessage_def)
  have r4: "mem ?w3 = (mem w)(heapTop w + 1 := exampleMem p)"
    unfolding w3 using mem1 by (simp add: sendError_def Admin_sendMessage_def doLog_frame)
  have r5: "heapTop ?w3 = heapTop w + 1"
    unfolding w3 using ht1 by (simp add: sendError_def Admin_sendMessage_def doLog_frame)
  show ?thesis unfolding run using r1 r2 r3 r4 r5 by blast
qed

lemma exampleMem_length: "q \<noteq> 1 \<Longrightarrow> q \<noteq> 33 \<Longrightarrow> length (exampleMem q) = q + 2"
  by (simp add: exampleMem_def)

lemma exampleMem_hd: "q \<noteq> 1 \<Longrightarrow> q \<noteq> 33 \<Longrightarrow> q \<noteq> 0 \<Longrightarrow> hd (exampleMem q) = CHR ''a''"
  by (cases q) (simp_all add: exampleMem_def)

lemma exampleMem_hd1: "hd (exampleMem 1) = CHR ''n''"
  by (simp add: exampleMem_def)

lemma exampleMem_distinct:
  assumes a: "1 \<le> a" "a \<le> 32" and b: "1 \<le> b" "b \<le> 32" and eq: "exampleMem a = exampleMem b"
  shows "a = b"
proof (rule ccontr)
  assume ne: "a \<noteq> b"
  have hds: "hd (exampleMem a) = hd (exampleMem b)" by (simp only: eq)
  have lens: "length (exampleMem a) = length (exampleMem b)" by (simp only: eq)
  show False
  proof (cases "a = 1")
    case True
    then have "b \<noteq> 1" "b \<noteq> 33" "b \<noteq> 0" using ne b by auto
    then have "hd (exampleMem b) = CHR ''a''" by (rule exampleMem_hd)
    moreover have "hd (exampleMem a) = CHR ''n''" unfolding True by (rule exampleMem_hd1)
    ultimately show False using hds by simp
  next
    case False
    then have a': "a \<noteq> 1" "a \<noteq> 33" "a \<noteq> 0" using a by auto
    show False
    proof (cases "b = 1")
      case True
      have "hd (exampleMem a) = CHR ''a''" using a' by (rule exampleMem_hd)
      moreover have "hd (exampleMem b) = CHR ''n''" unfolding True by (rule exampleMem_hd1)
      ultimately show False using hds by simp
    next
      case bf: False
      then have b': "b \<noteq> 1" "b \<noteq> 33" using b by auto
      have "length (exampleMem a) = a + 2" using a' by (simp add: exampleMem_length)
      moreover have "length (exampleMem b) = b + 2" using b' by (simp add: exampleMem_length)
      ultimately show False using lens ne by simp
    qed
  qed
qed

lemma cstring_exampleMem: "cstring (exampleMem q) = exampleMem q"
  by (simp add: cstring_def exampleMem_def takeWhile_eq_all_conv)

lemma word_of_nat_neq_500: "p < 500 \<Longrightarrow> (of_nat p :: 64 word) \<noteq> 500"
proof
  assume p: "p < 500" and eq: "(of_nat p :: 64 word) = 500"
  have "unat (of_nat p :: 64 word) = p" using p by (simp add: unat_of_nat)
  moreover have "unat (500 :: 64 word) = 500" by simp
  ultimately show False using eq p by simp
qed

lemma wrapInv_cycle:
  assumes inv: "wrapInv k w" and k: "1 \<le> k" "k \<le> 31"
  shows "subscriptionCount (adminLog (run (cycleCalls (k + 1)) w)) = 1
     \<and> subscriptions (adminLog (run (cycleCalls (k + 1)) w)) 0 = subscriptions (adminLog w) 0
     \<and> fileNames (adminLog (run (cycleCalls (k + 1)) w))
          = ((fileNames (adminLog w))(k := k + 1))((k + 1) mod FILENAME_COUNT := NULL)
     \<and> mem (run (cycleCalls (k + 1)) w) = (mem w)(heapTop w + 1 := exampleMem (k + 1))
     \<and> heapTop (run (cycleCalls (k + 1)) w) = heapTop w + 1"
proof (rule cycle_effect)
  show "subscriptionCount (adminLog w) = 1" using inv by (simp add: wrapInv_def)
  show "internalName (subscriptions (adminLog w) 0)" using inv by (simp add: wrapInv_def)
  show "filePtr (subscriptions (adminLog w) 0) \<noteq> NULL" using inv by (simp add: wrapInv_def NULL_def)
  show "filePtr (subscriptions (adminLog w) 0) \<noteq> k + 1" using inv k by (simp add: wrapInv_def)
  show "streamId (subscriptions (adminLog w) 0) \<noteq> of_nat (k + 1)"
    using inv k word_of_nat_neq_500[of "k + 1"] by (simp add: wrapInv_def del: of_nat_add of_nat_Suc)
  show "k < FILENAME_COUNT" using k by (simp add: FILENAME_COUNT_def)
  show "\<forall>j<k. fileNames (adminLog w) j \<noteq> NULL \<and> fileNames (adminLog w) j \<noteq> k + 1"
    using inv k by (simp add: wrapInv_def FILENAME_COUNT_def NULL_def)
  show "fileNames (adminLog w) k = NULL" using inv k by (simp add: wrapInv_def FILENAME_COUNT_def)
  show "\<forall>j<FILENAME_COUNT. fileNames (adminLog w) j = NULL
          \<or> mem w (fileNames (adminLog w) j) \<noteq> exampleMem (k + 1)"
  proof (intro allI impI)
    fix j assume j: "j < FILENAME_COUNT"
    show "fileNames (adminLog w) j = NULL \<or> mem w (fileNames (adminLog w) j) \<noteq> exampleMem (k + 1)"
    proof (cases "j < k")
      case True
      then have f: "fileNames (adminLog w) j = j + 1" using inv j by (simp add: wrapInv_def)
      have m: "mem w (j + 1) = exampleMem (j + 1)" using inv True k by (simp add: wrapInv_def)
      have "exampleMem (j + 1) \<noteq> exampleMem (k + 1)"
        using exampleMem_distinct[of "j + 1" "k + 1"] True k by auto
      then show ?thesis using f m by simp
    next
      case False
      then show ?thesis using inv j by (simp add: wrapInv_def)
    qed
  qed
  show "mem w (k + 1) = exampleMem (k + 1)" using inv k by (simp add: wrapInv_def)
  show "k + 1 \<noteq> NULL" by (simp add: NULL_def)
  show "k + 1 \<le> heapTop w" using inv k by (simp add: wrapInv_def)
  show "cstring (exampleMem (k + 1)) = exampleMem (k + 1)" by (rule cstring_exampleMem)
qed

lemma wrapInv_step:
  assumes inv: "wrapInv k w" and k: "1 \<le> k" "k < 31"
  shows "wrapInv (k + 1) (run (cycleCalls (k + 1)) w)"
proof -
  let ?w' = "run (cycleCalls (k + 1)) w"
  have k': "k \<le> 31" using k by simp
  note e = wrapInv_cycle[OF inv k(1) k']
  have md: "(k + 1) mod FILENAME_COUNT = k + 1" using k by (simp add: FILENAME_COUNT_def)
  have c: "subscriptionCount (adminLog ?w') = 1" using e by blast
  have s: "subscriptions (adminLog ?w') 0 = subscriptions (adminLog w) 0" using e by blast
  have f: "fileNames (adminLog ?w') = ((fileNames (adminLog w))(k := k + 1))(k + 1 := NULL)"
    using e md by simp
  have m: "mem ?w' = (mem w)(heapTop w + 1 := exampleMem (k + 1))" using e by blast
  have h: "heapTop ?w' = heapTop w + 1" using e by blast
  have old_f: "\<forall>j<FILENAME_COUNT. fileNames (adminLog w) j = (if j < k then j + 1 else NULL)"
    using inv by (simp add: wrapInv_def)
  have old_m: "\<forall>q\<le>100. mem w q = exampleMem q" and old_h: "100 \<le> heapTop w"
    using inv by (simp_all add: wrapInv_def)
  have f': "\<forall>j<FILENAME_COUNT. fileNames (adminLog ?w') j = (if j < k + 1 then j + 1 else NULL)"
    unfolding f using old_f by (auto simp: NULL_def)
  have m': "\<forall>q\<le>100. mem ?w' q = exampleMem q"
    unfolding m using old_m old_h by auto
  have h': "100 \<le> heapTop ?w'" unfolding h using old_h by simp
  have sub: "internalName (subscriptions (adminLog ?w') 0)
     \<and> filePtr (subscriptions (adminLog ?w') 0) = 1
     \<and> streamId (subscriptions (adminLog ?w') 0) = 500
     \<and> level (subscriptions (adminLog ?w') 0) = Log_Level_DEBUG
     \<and> lineNum (subscriptions (adminLog ?w') 0) = 0"
    unfolding s using inv by (simp add: wrapInv_def)
  show ?thesis unfolding wrapInv_def using c sub f' m' h' by blast
qed

lemma wrapInv_iterate:
  "wrapInv k w \<Longrightarrow> 1 \<le> k \<Longrightarrow> k + n \<le> 31 \<Longrightarrow>
     wrapInv (k + n) (run (concat (map cycleCalls [k + 1..<k + 1 + n])) w)"
proof (induction n arbitrary: k w)
  case 0
  then show ?case by (simp add: run_def)
next
  case (Suc n)
  have step: "wrapInv (k + 1) (run (cycleCalls (k + 1)) w)"
    using wrapInv_step[OF Suc.prems(1,2)] Suc.prems(3) by simp
  have "[k + 1..<k + 1 + Suc n] = (k + 1) # [k + 1 + 1..<k + 1 + 1 + n]"
    by (simp add: upt_conv_Cons)
  then have "run (concat (map cycleCalls [k + 1..<k + 1 + Suc n])) w
               = run (concat (map cycleCalls [k + 1 + 1..<k + 1 + 1 + n])) (run (cycleCalls (k + 1)) w)"
    by (simp add: run_append)
  moreover have "wrapInv (k + 1 + n) (run (concat (map cycleCalls [k + 1 + 1..<k + 1 + 1 + n])) (run (cycleCalls (k + 1)) w))"
    using Suc.IH[OF step] Suc.prems(3) by simp
  ultimately show ?case by simp
qed

lemma wrapInv_base:
  "wrapInv 1 (run [Subscribe [(''file'', String_OBJ ''net.c'')] ''tA'' 500,
                   DoLog Log_Level_ERROR 1 10 ''m'' 0] exampleWorld)"
proof -
  let ?args = "[(''file'', String_OBJ ''net.c'')]"
  let ?w1 = "subscribe ?args ''tA'' 500 exampleWorld"
  let ?w2 = "doLog Log_Level_ERROR 1 10 ''m'' 0 ?w1"
  have run: "run [Subscribe ?args ''tA'' 500, DoLog Log_Level_ERROR 1 10 ''m'' 0] exampleWorld = ?w2"
    by (simp add: run_def)
  have sub: "subscriptionCount (adminLog ?w2) = 1
     \<and> internalName (subscriptions (adminLog ?w2) 0)
     \<and> filePtr (subscriptions (adminLog ?w2) 0) = 1
     \<and> streamId (subscriptions (adminLog ?w2) 0) = 500
     \<and> level (subscriptions (adminLog ?w2) 0) = Log_Level_DEBUG
     \<and> lineNum (subscriptions (adminLog ?w2) 0) = 0"
    by code_simp
  have "list_all (\<lambda>j. fileNames (adminLog ?w2) j = (if j < 1 then j + 1 else NULL)) [0..<32]"
    by code_simp
  then have tbl: "\<forall>j<FILENAME_COUNT. fileNames (adminLog ?w2) j = (if j < 1 then j + 1 else NULL)"
    by (simp add: list_all_iff FILENAME_COUNT_def)
  have acc: "subscribeAccepts ?args exampleWorld"
    by (simp add: subscribeAccepts_def Dict_getString_def Dict_getInt_def exampleWorld_def
          AdminLog_registerNew_def MAX_SUBSCRIPTIONS_def)
  have gs: "Dict_getString ?args ''file'' = Some ''net.c''" by (simp add: Dict_getString_def)
  have ht: "heapTop exampleWorld = 100" and m0: "mem exampleWorld = exampleMem"
    by (simp_all add: exampleWorld_def AdminLog_registerNew_def)
  have mh: "(\<forall>q\<le>100. mem ?w1 q = exampleMem q) \<and> 100 \<le> heapTop ?w1"
    using subscribe_accepted_file[OF acc, of "''tA''" 500] by (auto simp: gs ht m0)
  then have mh2: "(\<forall>q\<le>100. mem ?w2 q = exampleMem q) \<and> 100 \<le> heapTop ?w2"
    by (simp add: doLog_frame)
  show ?thesis unfolding run wrapInv_def using sub tbl mh2 by blast
qed

lemma wrapAround_state:
  "subscriptionCount (adminLog (run wrapAround exampleWorld)) = 1
   \<and> internalName (subscriptions (adminLog (run wrapAround exampleWorld)) 0)
   \<and> filePtr (subscriptions (adminLog (run wrapAround exampleWorld)) 0) = 1
   \<and> level (subscriptions (adminLog (run wrapAround exampleWorld)) 0) = Log_Level_DEBUG
   \<and> lineNum (subscriptions (adminLog (run wrapAround exampleWorld)) 0) = 0
   \<and> (\<forall>j<FILENAME_COUNT. fileNames (adminLog (run wrapAround exampleWorld)) j = (if j = 0 then NULL else j + 1))
   \<and> (\<forall>q\<le>100. mem (run wrapAround exampleWorld) q = exampleMem q)
   \<and> 100 \<le> heapTop (run wrapAround exampleWorld)"
proof -
  let ?wb = "run [Subscribe [(''file'', String_OBJ ''net.c'')] ''tA'' 500,
                   DoLog Log_Level_ERROR 1 10 ''m'' 0] exampleWorld"
  let ?w31 = "run (concat (map cycleCalls [2..<32])) ?wb"
  let ?w = "run (cycleCalls 32) ?w31"
  have run: "run wrapAround exampleWorld = ?w" unfolding wrapAround_def by (simp only: run_append)
  have nums: "(1::nat) + 30 = 31" "(1::nat) + 1 = 2" "(2::nat) + 30 = 32" by simp_all
  have "wrapInv (1 + 30) (run (concat (map cycleCalls [1 + 1..<1 + 1 + 30])) ?wb)"
    by (rule wrapInv_iterate[OF wrapInv_base]) simp_all
  then have inv: "wrapInv 31 ?w31" by (simp only: nums)
  have n32: "(31::nat) + 1 = 32" by simp
  have "subscriptionCount (adminLog (run (cycleCalls (31 + 1)) ?w31)) = 1
     \<and> subscriptions (adminLog (run (cycleCalls (31 + 1)) ?w31)) 0 = subscriptions (adminLog ?w31) 0
     \<and> fileNames (adminLog (run (cycleCalls (31 + 1)) ?w31))
          = ((fileNames (adminLog ?w31))(31 := 31 + 1))((31 + 1) mod FILENAME_COUNT := NULL)
     \<and> mem (run (cycleCalls (31 + 1)) ?w31) = (mem ?w31)(heapTop ?w31 + 1 := exampleMem (31 + 1))
     \<and> heapTop (run (cycleCalls (31 + 1)) ?w31) = heapTop ?w31 + 1"
    by (rule wrapInv_cycle[OF inv]) simp_all
  then have c: "subscriptionCount (adminLog ?w) = 1"
    and s: "subscriptions (adminLog ?w) 0 = subscriptions (adminLog ?w31) 0"
    and f: "fileNames (adminLog ?w) = ((fileNames (adminLog ?w31))(31 := 32))(0 := NULL)"
    and m: "mem ?w = (mem ?w31)(heapTop ?w31 + 1 := exampleMem 32)"
    and h: "heapTop ?w = heapTop ?w31 + 1"
    unfolding n32 by (simp_all add: FILENAME_COUNT_def)
  have old_f: "\<forall>j<FILENAME_COUNT. fileNames (adminLog ?w31) j = (if j < 31 then j + 1 else NULL)"
    using inv by (simp add: wrapInv_def)
  have old_m: "\<forall>q\<le>100. mem ?w31 q = exampleMem q" and old_h: "100 \<le> heapTop ?w31"
    using inv by (simp_all add: wrapInv_def)
  have f': "\<forall>j<FILENAME_COUNT. fileNames (adminLog ?w) j = (if j = 0 then NULL else j + 1)"
    unfolding f using old_f by (auto simp: NULL_def FILENAME_COUNT_def)
  have m': "\<forall>q\<le>100. mem ?w q = exampleMem q" unfolding m using old_m old_h by auto
  have h': "100 \<le> heapTop ?w" unfolding h using old_h by simp
  have sub: "internalName (subscriptions (adminLog ?w) 0)
     \<and> filePtr (subscriptions (adminLog ?w) 0) = 1
     \<and> level (subscriptions (adminLog ?w) 0) = Log_Level_DEBUG
     \<and> lineNum (subscriptions (adminLog ?w) 0) = 0"
    unfolding s using inv by (simp add: wrapInv_def)
  show ?thesis unfolding run using c sub f' m' h' by blast
qed

section \<open>Insertion into the interned table\<close>

lemma doLog_three:
  assumes "subscriptionCount (adminLog w) = 3"
  shows "doLog lv f ln msg sn w
           = snd (doLog_body 2 lv f ln msg sn
                   (doLog_body 1 lv f ln msg sn (doLog_body 0 lv f ln msg sn (None, w))))"
proof -
  let ?s0 = "(None :: Dict option, w)"
  let ?s1 = "doLog_body 0 lv f ln msg sn ?s0"
  let ?s2 = "doLog_body 1 lv f ln msg sn ?s1"
  let ?s3 = "doLog_body 2 lv f ln msg sn ?s2"
  have c1: "subscriptionCount (adminLog (snd ?s1)) = 3" using assms by (simp add: doLog_body_frame)
  have c2: "subscriptionCount (adminLog (snd ?s2)) = 3" using c1 by (simp add: doLog_body_frame)
  have c3: "subscriptionCount (adminLog (snd ?s3)) = 3" using c2 by (simp add: doLog_body_frame)
  have "doLog_loop 0 lv f ln msg sn ?s0 = doLog_loop 1 lv f ln msg sn ?s1"
    using assms by (subst doLog_loop.simps) simp
  also have "\<dots> = doLog_loop 2 lv f ln msg sn ?s2"
    using c1 by (subst doLog_loop.simps) (simp add: numeral_2_eq_2)
  also have "\<dots> = doLog_loop 3 lv f ln msg sn ?s3"
    using c2 by (subst doLog_loop.simps) (simp add: numeral_3_eq_3 numeral_2_eq_2)
  also have "\<dots> = ?s3"
    using c3 by (subst doLog_loop.simps) simp
  finally show ?thesis by (simp add: doLog_def)
qed

lemma doLog_body_promote:
  assumes "\<not> internalName (subscriptions (adminLog (snd s)) i)"
    and "filePtr (subscriptions (adminLog (snd s)) i) \<noteq> NULL"
    and "mem (snd s) f = mem (snd s) (filePtr (subscriptions (adminLog (snd s)) i))"
  shows "fileNames (adminLog (snd (doLog_body i lv f ln msg sn s)))
           = internFileName 0 f (fileNames (adminLog (snd s)))"
    and "subscriptions (adminLog (snd (doLog_body i lv f ln msg sn s)))
           = (subscriptions (adminLog (snd s)))
               (i := (subscriptions (adminLog (snd s)) i)\<lparr>filePtr := f, internalName := True\<rparr>)"
  using assms by (simp_all add: doLog_body_subs doLog_body_fileNames isMatch_def strcmp_def Let_def)

lemma doLog_body_skip:
  assumes "internalName (subscriptions (adminLog (snd s)) i)"
    and "filePtr (subscriptions (adminLog (snd s)) i) \<noteq> NULL"
    and "filePtr (subscriptions (adminLog (snd s)) i) \<noteq> f"
  shows "fileNames (adminLog (snd (doLog_body i lv f ln msg sn s))) = fileNames (adminLog (snd s))"
    and "subscriptions (adminLog (snd (doLog_body i lv f ln msg sn s))) = subscriptions (adminLog (snd s))"
  using assms by (simp_all add: doLog_body_subs doLog_body_fileNames isMatch_def)

lemma fillTable_state: "wrapInv 31 (run fillTable exampleWorld)"
proof -
  let ?wb = "run [Subscribe [(''file'', String_OBJ ''net.c'')] ''tA'' 500,
                   DoLog Log_Level_ERROR 1 10 ''m'' 0] exampleWorld"
  have run: "run fillTable exampleWorld = run (concat (map cycleCalls [2..<32])) ?wb"
    unfolding fillTable_def by (simp only: run_append)
  have nums: "(1::nat) + 30 = 31" "(1::nat) + 1 = 2" "(2::nat) + 30 = 32" by simp_all
  have "wrapInv (1 + 30) (run (concat (map cycleCalls [1 + 1..<1 + 1 + 30])) ?wb)"
    by (rule wrapInv_iterate[OF wrapInv_base]) simp_all
  then show ?thesis unfolding run by (simp only: nums)
qed

lemma two_waiting_effect:
  assumes inv: "wrapInv 31 v"
  defines "w \<equiv> subscribe [(''file'', String_OBJ (exampleMem 32))] ''tY'' 33
                 (subscribe [(''file'', String_OBJ (exampleMem 32))] ''tX'' 32 v)"
  defines "s2 \<equiv> doLog_body 1 Log_Level_ERROR 32 10 ''m'' 0
                  (doLog_body 0 Log_Level_ERROR 32 10 ''m'' 0 (None, w))"
  shows "subscriptionCount (adminLog w) = 3"
    and "fileNames (adminLog w) = fileNames (adminLog v)"
    and "fileNames (adminLog (snd s2)) = ((fileNames (adminLog v))(31 := 32))(0 := NULL)"
    and "\<not> internalName (subscriptions (adminLog (snd s2)) 2)"
    and "mem (snd s2) (filePtr (subscriptions (adminLog (snd s2)) 2)) = mem (snd s2) 32"
    and "fileNames (adminLog (doLog Log_Level_ERROR 32 10 ''m'' 0 w))
           = ((((fileNames (adminLog v))(31 := 32))(0 := NULL))(0 := 32))(1 := NULL)"
proof -
  let ?args = "[(''file'', String_OBJ (exampleMem 32))]"
  let ?va = "subscribe ?args ''tX'' 32 v"
  let ?T = "fileNames (adminLog v)"
  let ?h = "heapTop v"
  have w: "w = subscribe ?args ''tY'' 33 ?va" by (simp add: w_def)
  have cnt: "subscriptionCount (adminLog v) = 1" using inv by (simp add: wrapInv_def)
  have T: "\<forall>j<FILENAME_COUNT. ?T j = (if j < 31 then j + 1 else NULL)"
    using inv by (simp add: wrapInv_def)
  have memv: "\<forall>q\<le>100. mem v q = exampleMem q" and hv: "100 \<le> ?h"
    using inv by (simp_all add: wrapInv_def)
  have gs: "Dict_getString ?args ''file'' = Some (exampleMem 32)" "Dict_getString ?args ''level'' = None"
    "Dict_getInt ?args ''line'' = None"
    by (simp_all add: Dict_getString_def Dict_getInt_def)
  have pz: "cstring (exampleMem 32) = exampleMem 32" by (rule cstring_exampleMem)
  have noname: "?T j = NULL \<or> m (?T j) \<noteq> exampleMem 32"
    if j: "j < FILENAME_COUNT" and m: "\<forall>q\<le>100. m q = exampleMem q" for j m
  proof (cases "j < 31")
    case True
    then have f: "?T j = j + 1" using T j by simp
    have mm: "m (j + 1) = exampleMem (j + 1)" using m True by simp
    have "exampleMem (j + 1) \<noteq> exampleMem 32"
      using exampleMem_distinct[of "j + 1" 32] True by auto
    then show ?thesis using f mm by simp
  next
    case False
    then show ?thesis using T j by simp
  qed
  have acc1: "subscribeAccepts ?args v" by (simp add: subscribeAccepts_def gs cnt MAX_SUBSCRIPTIONS_def)
  have c1: "subscriptionCount (adminLog ?va) = 2" using subscribe_accepted_count[OF acc1] cnt by simp
  have fn1: "fileNames (adminLog ?va) = ?T" by (rule subscribe_fileNames)
  have nn1: "\<forall>j<FILENAME_COUNT. ?T j = NULL \<or> mem v (?T j) \<noteq> exampleMem 32"
    using noname memv by blast
  have file1: "\<not> internalName (subscriptions (adminLog ?va) 1)
      \<and> filePtr (subscriptions (adminLog ?va) 1) = ?h + 1
      \<and> mem ?va = (mem v)(?h + 1 := exampleMem 32)
      \<and> heapTop ?va = ?h + 1"
    using subscribe_accepted_file[OF acc1, of "''tX''" 32] nn1
    by (auto simp: gs cnt pz)
  have sub0a: "subscriptions (adminLog ?va) 0 = subscriptions (adminLog v) 0"
    using subscribe_accepted_others[OF acc1, of 0] cnt by simp
  have mema: "\<forall>q\<le>100. mem ?va q = exampleMem q" using file1 memv hv by auto
  have acc2: "subscribeAccepts ?args ?va" by (simp add: subscribeAccepts_def gs c1 MAX_SUBSCRIPTIONS_def)
  have c2: "subscriptionCount (adminLog w) = 3" unfolding w using subscribe_accepted_count[OF acc2] c1 by simp
  have fn2: "fileNames (adminLog w) = ?T" unfolding w by (simp add: subscribe_fileNames)
  have nn2: "\<forall>j<FILENAME_COUNT. fileNames (adminLog ?va) j = NULL
                \<or> mem ?va (fileNames (adminLog ?va) j) \<noteq> exampleMem 32"
    unfolding fn1 using noname mema by blast
  have file2a: "\<not> internalName (subscriptions (adminLog w) 2)
      \<and> filePtr (subscriptions (adminLog w) 2) = heapTop ?va + 1
      \<and> mem w = (mem ?va)(heapTop ?va + 1 := exampleMem 32)
      \<and> heapTop w = heapTop ?va + 1"
    unfolding w using subscribe_accepted_file[OF acc2, of "''tY''" 33] nn2
    by (auto simp: gs c1 pz)
  have hva: "heapTop ?va + 1 = ?h + 2" using file1 by simp
  have file2: "\<not> internalName (subscriptions (adminLog w) 2)
      \<and> filePtr (subscriptions (adminLog w) 2) = ?h + 2
      \<and> mem w = (mem ?va)(?h + 2 := exampleMem 32)
      \<and> heapTop w = ?h + 2"
    using file2a unfolding hva .
  have sub0: "subscriptions (adminLog w) 0 = subscriptions (adminLog v) 0"
    unfolding w using subscribe_accepted_others[OF acc2, of 0] c1 sub0a by simp
  have sub1: "subscriptions (adminLog w) 1 = subscriptions (adminLog ?va) 1"
    unfolding w using subscribe_accepted_others[OF acc2, of 1] c1 by simp
  have memw: "mem w = ((mem v)(?h + 1 := exampleMem 32))(?h + 2 := exampleMem 32)"
    using file1 file2 by simp
  have m32: "mem w 32 = exampleMem 32" unfolding memw using memv hv by simp
  have m1: "mem w (?h + 1) = exampleMem 32" unfolding memw by simp
  have m2: "mem w (?h + 2) = exampleMem 32" unfolding memw by simp
  let ?s0 = "(None :: Dict option, w)"
  let ?s1 = "doLog_body 0 Log_Level_ERROR 32 10 ''m'' 0 ?s0"
  have s2: "s2 = doLog_body 1 Log_Level_ERROR 32 10 ''m'' 0 ?s1" by (simp add: s2_def)
  have s0_0: "internalName (subscriptions (adminLog (snd ?s0)) 0)"
    "filePtr (subscriptions (adminLog (snd ?s0)) 0) \<noteq> NULL"
    "filePtr (subscriptions (adminLog (snd ?s0)) 0) \<noteq> 32"
    using inv by (simp_all add: sub0 wrapInv_def NULL_def)
  note k0 = doLog_body_skip[OF s0_0, of Log_Level_ERROR 10 "''m''" 0]
  have s1_fns: "fileNames (adminLog (snd ?s1)) = ?T" using k0(1) fn2 by simp
  have s1_subs: "subscriptions (adminLog (snd ?s1)) = subscriptions (adminLog w)" using k0(2) by simp
  have s1_mem: "mem (snd ?s1) = mem w" by (simp add: doLog_body_frame)
  have s1_1: "\<not> internalName (subscriptions (adminLog (snd ?s1)) 1)"
    "filePtr (subscriptions (adminLog (snd ?s1)) 1) \<noteq> NULL"
    "mem (snd ?s1) 32 = mem (snd ?s1) (filePtr (subscriptions (adminLog (snd ?s1)) 1))"
    unfolding s1_subs s1_mem sub1 using file1 m32 m1 by (simp_all add: NULL_def)
  note k1 = doLog_body_promote[OF s1_1, of Log_Level_ERROR 10 "''m''" 0]
  have ins1: "internFileName 0 32 ?T = (?T(31 := 32))((31 + 1) mod FILENAME_COUNT := NULL)"
    using internFileName_skip[of 0 31 ?T 32] T by (auto simp: FILENAME_COUNT_def NULL_def)
  have s2_fns: "fileNames (adminLog (snd s2)) = (?T(31 := 32))(0 := NULL)"
    unfolding s2 using k1(1) ins1 s1_fns by (simp add: FILENAME_COUNT_def)
  have s2_sub2: "subscriptions (adminLog (snd s2)) 2 = subscriptions (adminLog w) 2"
    unfolding s2 using k1(2) s1_subs by simp
  have s2_mem: "mem (snd s2) = mem w" unfolding s2 by (simp add: doLog_body_frame)
  have s2_2: "\<not> internalName (subscriptions (adminLog (snd s2)) 2)"
    "filePtr (subscriptions (adminLog (snd s2)) 2) \<noteq> NULL"
    "mem (snd s2) 32 = mem (snd s2) (filePtr (subscriptions (adminLog (snd s2)) 2))"
    unfolding s2_sub2 s2_mem using file2 m32 m2 by (simp_all add: NULL_def)
  note k2 = doLog_body_promote[OF s2_2, of Log_Level_ERROR 10 "''m''" 0]
  let ?T2 = "(?T(31 := 32))(0 := NULL)"
  have ins2: "internFileName 0 32 ?T2 = (?T2(0 := 32))((0 + 1) mod FILENAME_COUNT := NULL)"
    using internFileName_skip[of 0 0 ?T2 32] by (simp add: FILENAME_COUNT_def NULL_def)
  have fin: "doLog Log_Level_ERROR 32 10 ''m'' 0 w = snd (doLog_body 2 Log_Level_ERROR 32 10 ''m'' 0 s2)"
    unfolding s2 by (rule doLog_three[OF c2])
  show "subscriptionCount (adminLog w) = 3" by (rule c2)
  show "fileNames (adminLog w) = ?T" by (rule fn2)
  show "fileNames (adminLog (snd s2)) = ?T2" by (rule s2_fns)
  show "\<not> internalName (subscriptions (adminLog (snd s2)) 2)" by (rule s2_2(1))
  show "mem (snd s2) (filePtr (subscriptions (adminLog (snd s2)) 2)) = mem (snd s2) 32"
    using s2_2(3) by simp
  show "fileNames (adminLog (doLog Log_Level_ERROR 32 10 ''m'' 0 w)) = ((?T2)(0 := 32))(1 := NULL)"
    unfolding fin using k2(1) ins2 s2_fns by (simp add: FILENAME_COUNT_def)
qed

lemma twoWaiting_eq:
  "twoWaiting = subscribe [(''file'', String_OBJ (exampleMem 32))] ''tY'' 33
                 (subscribe [(''file'', String_OBJ (exampleMem 32))] ''tX'' 32 (run fillTable exampleWorld))"
  unfolding twoWaiting_def by (simp add: run_append run_Cons run_Nil)

text \<open>
  C9, as the code has it. The scan stops at the first slot that either holds the pointer
  or is empty. If that slot holds the pointer, nothing is written. If that slot is
  empty, the name is written into it and the slot after it (index + 1 modulo 32) is
  cleared, whether or not a later slot holds the pointer already. If no slot is empty,
  the table is left unchanged; no sequence of \<open>subscribe\<close>, \<open>unsubscribe\<close> and log calls
  reaches such a table. The subscription whose match starts the scan has been given the
  event's pointer and switched to pointer comparison before the scan, whatever the scan
  finds: from then on it accepts only events that pass that very pointer.
\<close>

theorem internFileName_effect:
  "(k < FILENAME_COUNT \<and> (\<forall>j<k. fns j \<noteq> name \<and> fns j \<noteq> NULL) \<and> fns k = name
      \<longrightarrow> internFileName 0 name fns = fns)
   \<and> (k' < FILENAME_COUNT \<and> (\<forall>j<k'. fns' j \<noteq> name' \<and> fns' j \<noteq> NULL) \<and> fns' k' = NULL
        \<and> name' \<noteq> NULL
      \<longrightarrow> internFileName 0 name' fns' = (fns'(k' := name'))((k' + 1) mod FILENAME_COUNT := NULL))
   \<and> ((\<forall>j<FILENAME_COUNT. fns'' j \<noteq> NULL) \<longrightarrow> internFileName 0 name'' fns'' = fns'')
   \<and> hasEmptySlot (fileNames (adminLog (run cs (AdminLog_registerNew m0 hi clk))))
   \<and> (\<not> internalName sub \<and> filePtr sub \<noteq> NULL \<and> m f = m (filePtr sub)
      \<longrightarrow> fst (snd (isMatch m sub tbl lv f ln)) = sub\<lparr>filePtr := f, internalName := True\<rparr>
          \<and> snd (snd (isMatch m sub tbl lv f ln)) = internFileName 0 f tbl)
   \<and> (f \<noteq> NULL
      \<longrightarrow> (fst (isMatch m (sub\<lparr>filePtr := f, internalName := True\<rparr>) tbl' lv' g ln')
            \<longleftrightarrow> g = f \<and> Log_Level_val (level sub) \<le> Log_Level_val lv'
                \<and> (lineNum sub = 0 \<or> ln' = word_of_int (lineNum sub))))"
proof (intro conjI impI)
  assume "k < FILENAME_COUNT \<and> (\<forall>j<k. fns j \<noteq> name \<and> fns j \<noteq> NULL) \<and> fns k = name"
  then show "internFileName 0 name fns = fns"
    using internFileName_skip [of 0 k fns name] by simp
next
  assume "k' < FILENAME_COUNT \<and> (\<forall>j<k'. fns' j \<noteq> name' \<and> fns' j \<noteq> NULL) \<and> fns' k' = NULL
            \<and> name' \<noteq> NULL"
  then show "internFileName 0 name' fns' = (fns'(k' := name'))((k' + 1) mod FILENAME_COUNT := NULL)"
    using internFileName_skip [of 0 k' fns' name'] by auto
next
  assume "\<forall>j<FILENAME_COUNT. fns'' j \<noteq> NULL"
  then show "internFileName 0 name'' fns'' = fns''"
    using internFileName_no_empty [of 0 fns'' name''] by simp
next
  show "hasEmptySlot (fileNames (adminLog (run cs (AdminLog_registerNew m0 hi clk))))"
    by (rule run_keeps_empty[OF registerNew_hasEmptySlot])
next
  assume a: "\<not> internalName sub \<and> filePtr sub \<noteq> NULL \<and> m f = m (filePtr sub)"
  then show "fst (snd (isMatch m sub tbl lv f ln)) = sub\<lparr>filePtr := f, internalName := True\<rparr>"
    by (simp add: isMatch_def strcmp_def Let_def)
  from a show "snd (snd (isMatch m sub tbl lv f ln)) = internFileName 0 f tbl"
    by (simp add: isMatch_def strcmp_def Let_def)
next
  assume "f \<noteq> NULL"
  then show "fst (isMatch m (sub\<lparr>filePtr := f, internalName := True\<rparr>) tbl' lv' g ln')
            \<longleftrightarrow> g = f \<and> Log_Level_val (level sub) \<le> Log_Level_val lv'
                \<and> (lineNum sub = 0 \<or> ln' = word_of_int (lineNum sub))"
    by (simp add: isMatch_fst)
qed

theorem internFileName_effect_witness:
  "internFileName 0 7 ((\<lambda>i. NULL)(0 := 5, 1 := 7)) = (\<lambda>i. NULL)(0 := 5, 1 := 7)
   \<and> internFileName 0 7 ((\<lambda>i. NULL)(0 := 5)) = (((\<lambda>i. NULL)(0 := 5))(1 := 7))(2 := NULL)
   \<and> internFileName 0 7 (\<lambda>i. 5) = (\<lambda>i. 5)
   \<and> hasEmptySlot (fileNames (adminLog (run twoAlike exampleWorld)))
   \<and> fst (snd (isMatch (\<lambda>p. ''net.c'') contentSubscriber ((\<lambda>i. NULL)(0 := 5)) Log_Level_ERROR 7 42))
       = contentSubscriber\<lparr>filePtr := 7, internalName := True\<rparr>
   \<and> snd (snd (isMatch (\<lambda>p. ''net.c'') contentSubscriber ((\<lambda>i. NULL)(0 := 5)) Log_Level_ERROR 7 42))
       = internFileName 0 7 ((\<lambda>i. NULL)(0 := 5))
   \<and> fst (isMatch (\<lambda>p. ''net.c'') (contentSubscriber\<lparr>filePtr := 7, internalName := True\<rparr>)
            ((((\<lambda>i. NULL)(0 := 5))(1 := 7))(2 := NULL)) Log_Level_ERROR 7 43)"
  using internFileName_effect [where k=1 and fns="(\<lambda>i. NULL)(0 := 5, 1 := 7)" and name=7
      and k'=1 and fns'="(\<lambda>i. NULL)(0 := 5)" and name'=7 and fns''="\<lambda>i. 5" and name''=7
      and cs=twoAlike and ?m0.0=exampleMem and hi=100 and clk="\<lambda>k. 1000 + int k"
      and sub=contentSubscriber and m="\<lambda>p. ''net.c''" and f=7 and tbl="(\<lambda>i. NULL)(0 := 5)"
      and lv=Log_Level_ERROR and ln=42
      and tbl'="(((\<lambda>i. NULL)(0 := 5))(1 := 7))(2 := NULL)" and lv'=Log_Level_ERROR and g=7 and ln'=43]
  by (simp add: NULL_def FILENAME_COUNT_def numeral_2_eq_2 contentSubscriber_def exampleWorld_def)

text \<open>
  C9 as stated fails in its first and in its last case. After the calls of \<open>twoWaiting\<close>
  the table holds the names 1 to 31 in the slots 0 to 30, slot 31 is empty, and two
  subscribers wait for the name at address 32. One event from address 32 promotes both:
  for the first the name is written into slot 31 and slot 0 is cleared; for the second
  slot 31 holds the pointer already, yet the scan stops at the empty slot 0, writes the
  name there and clears slot 1. And with a table that has no empty slot, the table is
  left unchanged but the subscription is switched to the pointer 7 all the same, and it
  rejects an event with the same file name at address 8: its matching does not continue
  by content comparison.
\<close>

theorem internFileName_writes_despite_entry:
  "subscriptionCount (adminLog twoWaiting) = 3
   \<and> fileNames (adminLog twoWaiting) 0 = 1
   \<and> fileNames (adminLog twoWaiting) 1 = 2
   \<and> fileNames (adminLog twoWaiting) 31 = NULL
   \<and> fileNames (adminLog (snd (doLog_body 1 Log_Level_ERROR 32 10 ''m'' 0
        (doLog_body 0 Log_Level_ERROR 32 10 ''m'' 0 (None, twoWaiting))))) 31 = 32
   \<and> fileNames (adminLog (snd (doLog_body 1 Log_Level_ERROR 32 10 ''m'' 0
        (doLog_body 0 Log_Level_ERROR 32 10 ''m'' 0 (None, twoWaiting))))) 0 = NULL
   \<and> fileNames (adminLog (snd (doLog_body 1 Log_Level_ERROR 32 10 ''m'' 0
        (doLog_body 0 Log_Level_ERROR 32 10 ''m'' 0 (None, twoWaiting))))) 1 = 2
   \<and> fileNames (adminLog (doLog Log_Level_ERROR 32 10 ''m'' 0 twoWaiting)) 0 = 32
   \<and> fileNames (adminLog (doLog Log_Level_ERROR 32 10 ''m'' 0 twoWaiting)) 1 = NULL
   \<and> fileNames (adminLog (doLog Log_Level_ERROR 32 10 ''m'' 0 twoWaiting)) 31 = 32
   \<and> snd (snd (isMatch (\<lambda>p. ''net.c'') contentSubscriber (\<lambda>i. 5) Log_Level_ERROR 7 42)) = (\<lambda>i. 5)
   \<and> fst (snd (isMatch (\<lambda>p. ''net.c'') contentSubscriber (\<lambda>i. 5) Log_Level_ERROR 7 42))
       = contentSubscriber\<lparr>filePtr := 7, internalName := True\<rparr>
   \<and> \<not> fst (isMatch (\<lambda>p. ''net.c'') (contentSubscriber\<lparr>filePtr := 7, internalName := True\<rparr>)
              (\<lambda>i. 5) Log_Level_ERROR 8 42)"
proof -
  let ?v = "run fillTable exampleWorld"
  let ?T = "fileNames (adminLog ?v)"
  note e = two_waiting_effect[OF fillTable_state, folded twoWaiting_eq]
  have T: "\<forall>j<FILENAME_COUNT. ?T j = (if j < 31 then j + 1 else NULL)"
    using fillTable_state by (simp add: wrapInv_def)
  have t0: "?T 0 = 1" and t1: "?T 1 = 2" and t31: "?T 31 = NULL"
    using T by (simp_all add: FILENAME_COUNT_def)
  have full: "internFileName 0 7 (\<lambda>i. 5) = (\<lambda>i. 5)"
    by (rule internFileName_no_empty) (simp add: NULL_def)
  have a: "subscriptionCount (adminLog twoWaiting) = 3" by (rule e(1))
  have b: "fileNames (adminLog twoWaiting) 0 = 1" "fileNames (adminLog twoWaiting) 1 = 2"
    "fileNames (adminLog twoWaiting) 31 = NULL"
    unfolding e(2) by (rule t0, rule t1, rule t31)
  have c: "fileNames (adminLog (snd (doLog_body 1 Log_Level_ERROR 32 10 ''m'' 0
        (doLog_body 0 Log_Level_ERROR 32 10 ''m'' 0 (None, twoWaiting))))) 31 = 32"
    "fileNames (adminLog (snd (doLog_body 1 Log_Level_ERROR 32 10 ''m'' 0
        (doLog_body 0 Log_Level_ERROR 32 10 ''m'' 0 (None, twoWaiting))))) 0 = NULL"
    "fileNames (adminLog (snd (doLog_body 1 Log_Level_ERROR 32 10 ''m'' 0
        (doLog_body 0 Log_Level_ERROR 32 10 ''m'' 0 (None, twoWaiting))))) 1 = 2"
    unfolding e(3) using t1 by simp_all
  have d: "fileNames (adminLog (doLog Log_Level_ERROR 32 10 ''m'' 0 twoWaiting)) 0 = 32"
    "fileNames (adminLog (doLog Log_Level_ERROR 32 10 ''m'' 0 twoWaiting)) 1 = NULL"
    "fileNames (adminLog (doLog Log_Level_ERROR 32 10 ''m'' 0 twoWaiting)) 31 = 32"
    unfolding e(6) by simp_all
  have f: "snd (snd (isMatch (\<lambda>p. ''net.c'') contentSubscriber (\<lambda>i. 5) Log_Level_ERROR 7 42)) = (\<lambda>i. 5)"
    "fst (snd (isMatch (\<lambda>p. ''net.c'') contentSubscriber (\<lambda>i. 5) Log_Level_ERROR 7 42))
       = contentSubscriber\<lparr>filePtr := 7, internalName := True\<rparr>"
    "\<not> fst (isMatch (\<lambda>p. ''net.c'') (contentSubscriber\<lparr>filePtr := 7, internalName := True\<rparr>)
              (\<lambda>i. 5) Log_Level_ERROR 8 42)"
    using full by (simp_all add: isMatch_def strcmp_def Let_def contentSubscriber_def NULL_def)
  show ?thesis using a b c d f by blast
qed

section \<open>Internal names and the table\<close>

text \<open>
  C7, as the code has it. In every state reached from \<open>AdminLog_registerNew\<close> by
  \<open>subscribe\<close>, \<open>unsubscribe\<close> and log calls, the table has an empty slot, and every live
  subscription that is marked internal and has a file set holds a pointer that was an
  entry of the table after some call of the run so far (after the \<open>subscribe\<close> that took
  it from the table or the log call that promoted the subscription). The entry need not
  be there any more.
\<close>

theorem internal_name_was_interned:
  assumes "i < subscriptionCount (adminLog (run cs (AdminLog_registerNew m hi clk)))"
    and "internalName (subscriptions (adminLog (run cs (AdminLog_registerNew m hi clk))) i)"
    and "filePtr (subscriptions (adminLog (run cs (AdminLog_registerNew m hi clk))) i) \<noteq> NULL"
  shows "hasEmptySlot (fileNames (adminLog (run cs (AdminLog_registerNew m hi clk))))
     \<and> (\<exists>k\<le>length cs.
          inTable (filePtr (subscriptions (adminLog (run cs (AdminLog_registerNew m hi clk))) i))
                  (fileNames (adminLog (run (take k cs) (AdminLog_registerNew m hi clk)))))"
proof -
  have z: "subscriptionCount (adminLog (AdminLog_registerNew m hi clk)) = 0"
    by (simp add: AdminLog_registerNew_def)
  show ?thesis
    using run_keeps_empty[OF registerNew_hasEmptySlot, of cs m hi clk]
      run_internal_origin[OF registerNew_hasEmptySlot assms z]
    by blast
qed

theorem internal_name_was_interned_witness:
  "hasEmptySlot (fileNames (adminLog (run wrapAround exampleWorld)))
   \<and> (\<exists>k\<le>length wrapAround.
         inTable (filePtr (subscriptions (adminLog (run wrapAround exampleWorld)) 0))
           (fileNames (adminLog (run (take k wrapAround) exampleWorld))))"
proof -
  let ?w = "run wrapAround (AdminLog_registerNew exampleMem 100 (\<lambda>k. 1000 + int k))"
  note st = wrapAround_state[unfolded exampleWorld_def]
  have h1: "0 < subscriptionCount (adminLog ?w)" using st by simp
  have h2: "internalName (subscriptions (adminLog ?w) 0)" using st by simp
  have h3: "filePtr (subscriptions (adminLog ?w) 0) \<noteq> NULL" using st by (simp add: NULL_def)
  show ?thesis unfolding exampleWorld_def by (rule internal_name_was_interned[OF h1 h2 h3])
qed

text \<open>
  C7 as stated fails: after the calls of \<open>wrapAround\<close> the first subscription is live and
  internal and holds the pointer 1, and no slot of the table holds 1 (the 32nd insertion
  cleared slot 0). And a subscriber who names no file is given a slot as its last holder
  left it: after the calls of \<open>staleInternal\<close> the live subscription is marked internal
  and has no file at all.
\<close>

theorem internal_name_evicted:
  "subscriptionCount (adminLog (run wrapAround exampleWorld)) = 1
   \<and> internalName (subscriptions (adminLog (run wrapAround exampleWorld)) 0)
   \<and> filePtr (subscriptions (adminLog (run wrapAround exampleWorld)) 0) = 1
   \<and> filePtr (subscriptions (adminLog (run wrapAround exampleWorld)) 0)
        \<notin> fileNames (adminLog (run wrapAround exampleWorld)) ` {0..<FILENAME_COUNT}
   \<and> subscriptionCount (adminLog staleInternal) = 1
   \<and> internalName (subscriptions (adminLog staleInternal) 0)
   \<and> filePtr (subscriptions (adminLog staleInternal) 0) = NULL"
proof -
  note st = wrapAround_state
  have ne: "fileNames (adminLog (run wrapAround exampleWorld)) j \<noteq> 1" if "j < FILENAME_COUNT" for j
    using st that by (auto simp: NULL_def)
  have "1 \<notin> fileNames (adminLog (run wrapAround exampleWorld)) ` {0..<FILENAME_COUNT}"
  proof
    assume "1 \<in> fileNames (adminLog (run wrapAround exampleWorld)) ` {0..<FILENAME_COUNT}"
    then obtain j where "j < FILENAME_COUNT" "fileNames (adminLog (run wrapAround exampleWorld)) j = 1"
      by auto
    then show False using ne by blast
  qed
  moreover have "subscriptionCount (adminLog staleInternal) = 1
   \<and> internalName (subscriptions (adminLog staleInternal) 0)
   \<and> filePtr (subscriptions (adminLog staleInternal) 0) = NULL"
    unfolding staleInternal_def by code_simp
  ultimately show ?thesis using st by simp
qed

section \<open>Subscriptions with the same filter\<close>

lemma internedNames_registerNew: "internedNames S m hi (AdminLog_registerNew m hi clk)"
  using registerNew_hasEmptySlot[of m hi clk]
  by (simp add: internedNames_def AdminLog_registerNew_def)

lemma internedNames_call:
  assumes inv: "internedNames S m hi w"
    and ev: "\<forall>lv f ln msg sn. c = DoLog lv f ln msg sn \<longrightarrow> f \<in> S"
  shows "internedNames S m hi (call c w)"
proof -
  have subs: "\<forall>i < subscriptionCount (adminLog w).
         internalName (subscriptions (adminLog w) i) \<and> filePtr (subscriptions (adminLog w) i) \<noteq> NULL
           \<longrightarrow> filePtr (subscriptions (adminLog w) i) \<in> S"
    and tbl: "\<forall>q<FILENAME_COUNT. fileNames (adminLog w) q \<noteq> NULL \<longrightarrow> fileNames (adminLog w) q \<in> S"
    and mm: "\<forall>p\<le>hi. mem w p = m p" and hh: "hi \<le> heapTop w"
    and em: "hasEmptySlot (fileNames (adminLog w))"
    using inv by (simp_all add: internedNames_def)
  have em': "hasEmptySlot (fileNames (adminLog (call c w)))" using em by (rule call_keeps_empty)
  have mem': "(\<forall>p\<le>hi. mem (call c w) p = m p) \<and> hi \<le> heapTop (call c w)"
  proof (cases c)
    case (Subscribe a t r)
    then show ?thesis using subscribe_mem[of w a t r] mm hh by auto
  next
    case (Unsubscribe h t)
    then show ?thesis using mm hh by (simp add: unsubscribe_frame)
  next
    case (DoLog lv f ln msg sn)
    then show ?thesis using mm hh by (simp add: doLog_frame)
  qed
  have tbl': "\<forall>q<FILENAME_COUNT. fileNames (adminLog (call c w)) q \<noteq> NULL
                \<longrightarrow> fileNames (adminLog (call c w)) q \<in> S"
  proof (cases c)
    case (Subscribe a t r)
    then show ?thesis using tbl by (simp add: subscribe_fileNames)
  next
    case (Unsubscribe h t)
    then show ?thesis using tbl by (simp add: unsubscribe_frame)
  next
    case (DoLog lv f ln msg sn)
    then have f: "f \<in> S" using ev by blast
    show ?thesis
    proof (intro allI impI)
      fix q assume q: "q < FILENAME_COUNT" and nn: "fileNames (adminLog (call c w)) q \<noteq> NULL"
      from doLog_table[OF em, of lv f ln msg sn]
      have "fileNames (adminLog (call c w)) q = fileNames (adminLog w) q
            \<or> fileNames (adminLog (call c w)) q = f
            \<or> fileNames (adminLog (call c w)) q = NULL"
        using DoLog by simp
      then show "fileNames (adminLog (call c w)) q \<in> S" using nn f tbl q by auto
    qed
  qed
  have subs': "\<forall>i < subscriptionCount (adminLog (call c w)).
         internalName (subscriptions (adminLog (call c w)) i)
           \<and> filePtr (subscriptions (adminLog (call c w)) i) \<noteq> NULL
           \<longrightarrow> filePtr (subscriptions (adminLog (call c w)) i) \<in> S"
  proof (intro allI impI)
    fix i assume i: "i < subscriptionCount (adminLog (call c w))"
      and a: "internalName (subscriptions (adminLog (call c w)) i)
                \<and> filePtr (subscriptions (adminLog (call c w)) i) \<noteq> NULL"
    from call_internal_origin[OF em i] a
    have "inTable (filePtr (subscriptions (adminLog (call c w)) i)) (fileNames (adminLog (call c w)))
         \<or> (\<exists>j < subscriptionCount (adminLog w).
               subscriptions (adminLog (call c w)) i = subscriptions (adminLog w) j)"
      by blast
    then show "filePtr (subscriptions (adminLog (call c w)) i) \<in> S"
    proof
      assume "inTable (filePtr (subscriptions (adminLog (call c w)) i)) (fileNames (adminLog (call c w)))"
      then show ?thesis using tbl' a unfolding inTable_def by auto
    next
      assume "\<exists>j < subscriptionCount (adminLog w).
               subscriptions (adminLog (call c w)) i = subscriptions (adminLog w) j"
      then obtain j where "j < subscriptionCount (adminLog w)"
        "subscriptions (adminLog (call c w)) i = subscriptions (adminLog w) j" by blast
      then show ?thesis using subs a by auto
    qed
  qed
  show ?thesis unfolding internedNames_def using subs' tbl' mem' em' by blast
qed

lemma internedNames_run:
  "internedNames S m hi w \<Longrightarrow>
   \<forall>c\<in>set cs. \<forall>lv f ln msg sn. c = DoLog lv f ln msg sn \<longrightarrow> f \<in> S \<Longrightarrow>
   internedNames S m hi (run cs w)"
proof (induction cs arbitrary: w)
  case Nil
  then show ?case by (simp add: run_def)
next
  case (Cons c cs)
  have "internedNames S m hi (call c w)"
    using internedNames_call[OF Cons.prems(1), of c] Cons.prems(2) by simp
  then have "internedNames S m hi (run cs (call c w))" using Cons.IH Cons.prems(2) by simp
  then show ?case by (simp add: run_Cons)
qed

lemma file_filter_by_content:
  assumes inv: "internedNames S m hi w"
    and names: "\<forall>p\<in>S. p \<le> hi" "\<forall>p\<in>S. \<forall>q\<in>S. m p = m q \<longrightarrow> p = q"
    and ev: "f \<in> S" and i: "i < subscriptionCount (adminLog w)"
    and fp: "filePtr (subscriptions (adminLog w) i) \<noteq> NULL"
  shows "((internalName (subscriptions (adminLog w) i) \<and> f = filePtr (subscriptions (adminLog w) i))
          \<or> (\<not> internalName (subscriptions (adminLog w) i)
              \<and> mem w f = mem w (filePtr (subscriptions (adminLog w) i))))
         \<longleftrightarrow> mem w f = mem w (filePtr (subscriptions (adminLog w) i))"
proof (cases "internalName (subscriptions (adminLog w) i)")
  case False
  then show ?thesis by simp
next
  case True
  let ?p = "filePtr (subscriptions (adminLog w) i)"
  have pS: "?p \<in> S" using inv i True fp by (simp add: internedNames_def)
  have mp: "mem w ?p = m ?p" using inv pS names(1) by (simp add: internedNames_def)
  have mf: "mem w f = m f" using inv ev names(1) by (simp add: internedNames_def)
  have "f = ?p" if "mem w f = mem w ?p"
    using that mp mf names(2) ev pS by auto
  then show ?thesis using True by auto
qed

text \<open>
  C8, as the code has it. Let the file names the host program logs with be interned: they
  are addresses \<open>S\<close> of its static memory whose contents differ pairwise, and every log
  call so far and the event at hand pass one of them. Then in every reachable state two
  live subscriptions with the same file filter text (both without a file, or both with
  files of equal content), the same level and the same line give the same verdict on the
  event, whichever of them has been promoted.
\<close>

theorem same_filter_same_verdict:
  assumes names: "\<forall>p\<in>S. p \<le> hi" "\<forall>p\<in>S. \<forall>q\<in>S. m p = m q \<longrightarrow> p = q"
    and hist: "\<forall>c\<in>set cs. \<forall>lv f ln msg sn. c = DoLog lv f ln msg sn \<longrightarrow> f \<in> S"
    and ev: "fileName \<in> S"
    and live: "i < subscriptionCount (adminLog (run cs (AdminLog_registerNew m hi clk)))"
              "j < subscriptionCount (adminLog (run cs (AdminLog_registerNew m hi clk)))"
    and same: "(filePtr (subscriptions (adminLog (run cs (AdminLog_registerNew m hi clk))) i) = NULL
                  \<and> filePtr (subscriptions (adminLog (run cs (AdminLog_registerNew m hi clk))) j) = NULL)
               \<or> (filePtr (subscriptions (adminLog (run cs (AdminLog_registerNew m hi clk))) i) \<noteq> NULL
                  \<and> filePtr (subscriptions (adminLog (run cs (AdminLog_registerNew m hi clk))) j) \<noteq> NULL
                  \<and> mem (run cs (AdminLog_registerNew m hi clk))
                        (filePtr (subscriptions (adminLog (run cs (AdminLog_registerNew m hi clk))) i))
                      = mem (run cs (AdminLog_registerNew m hi clk))
                        (filePtr (subscriptions (adminLog (run cs (AdminLog_registerNew m hi clk))) j)))"
    and lv: "level (subscriptions (adminLog (run cs (AdminLog_registerNew m hi clk))) i)
               = level (subscriptions (adminLog (run cs (AdminLog_registerNew m hi clk))) j)"
    and li: "lineNum (subscriptions (adminLog (run cs (AdminLog_registerNew m hi clk))) i)
               = lineNum (subscriptions (adminLog (run cs (AdminLog_registerNew m hi clk))) j)"
  shows "fst (isMatch (mem (run cs (AdminLog_registerNew m hi clk)))
                (subscriptions (adminLog (run cs (AdminLog_registerNew m hi clk))) i)
                fns logLevel fileName line)
         = fst (isMatch (mem (run cs (AdminLog_registerNew m hi clk)))
                (subscriptions (adminLog (run cs (AdminLog_registerNew m hi clk))) j)
                fns' logLevel fileName line)"
proof -
  let ?w = "run cs (AdminLog_registerNew m hi clk)"
  let ?a = "subscriptions (adminLog ?w) i"
  let ?b = "subscriptions (adminLog ?w) j"
  have inv: "internedNames S m hi ?w"
    using internedNames_run[OF internedNames_registerNew hist] .
  from same show ?thesis
  proof
    assume "filePtr ?a = NULL \<and> filePtr ?b = NULL"
    then show ?thesis using lv li by (simp add: isMatch_fst)
  next
    assume t: "filePtr ?a \<noteq> NULL \<and> filePtr ?b \<noteq> NULL \<and> mem ?w (filePtr ?a) = mem ?w (filePtr ?b)"
    have fa: "((internalName ?a \<and> fileName = filePtr ?a)
                \<or> (\<not> internalName ?a \<and> mem ?w fileName = mem ?w (filePtr ?a)))
              \<longleftrightarrow> mem ?w fileName = mem ?w (filePtr ?a)"
      using file_filter_by_content[OF inv names ev live(1)] t by blast
    have fb: "((internalName ?b \<and> fileName = filePtr ?b)
                \<or> (\<not> internalName ?b \<and> mem ?w fileName = mem ?w (filePtr ?b)))
              \<longleftrightarrow> mem ?w fileName = mem ?w (filePtr ?b)"
      using file_filter_by_content[OF inv names ev live(2)] t by blast
    have va: "fst (isMatch (mem ?w) ?a fns logLevel fileName line) \<longleftrightarrow>
                mem ?w fileName = mem ?w (filePtr ?a)
                \<and> Log_Level_val (level ?a) \<le> Log_Level_val logLevel
                \<and> (lineNum ?a = 0 \<or> line = word_of_int (lineNum ?a))"
      unfolding isMatch_fst using fa t by blast
    have vb: "fst (isMatch (mem ?w) ?b fns' logLevel fileName line) \<longleftrightarrow>
                mem ?w fileName = mem ?w (filePtr ?b)
                \<and> Log_Level_val (level ?b) \<le> Log_Level_val logLevel
                \<and> (lineNum ?b = 0 \<or> line = word_of_int (lineNum ?b))"
      unfolding isMatch_fst using fb t by blast
    show ?thesis unfolding va vb using t lv li by simp
  qed
qed

lemma afterWrapAround_state:
  "subscriptionCount (adminLog afterWrapAround) = 2
   \<and> internalName (subscriptions (adminLog afterWrapAround) 0)
   \<and> \<not> internalName (subscriptions (adminLog afterWrapAround) 1)
   \<and> filePtr (subscriptions (adminLog afterWrapAround) 0) = 1
   \<and> filePtr (subscriptions (adminLog afterWrapAround) 1) \<noteq> NULL
   \<and> mem afterWrapAround (filePtr (subscriptions (adminLog afterWrapAround) 1)) = ''net.c''
   \<and> mem afterWrapAround 1 = ''net.c''
   \<and> mem afterWrapAround 33 = ''net.c''
   \<and> level (subscriptions (adminLog afterWrapAround) 0) = Log_Level_DEBUG
   \<and> level (subscriptions (adminLog afterWrapAround) 1) = Log_Level_DEBUG
   \<and> lineNum (subscriptions (adminLog afterWrapAround) 0) = 0
   \<and> lineNum (subscriptions (adminLog afterWrapAround) 1) = 0"
proof -
  let ?v = "run wrapAround exampleWorld"
  let ?args = "[(''file'', String_OBJ ''net.c'')]"
  let ?w = "subscribe ?args ''tB'' 600 ?v"
  have run: "afterWrapAround = ?w"
    unfolding afterWrapAround_def by (simp only: run_append run_Cons run_Nil call.simps)
  note st = wrapAround_state
  have c0: "subscriptionCount (adminLog ?v) = 1" using st by simp
  have tbl: "\<forall>j<FILENAME_COUNT. fileNames (adminLog ?v) j = (if j = 0 then NULL else j + 1)"
    using st by simp
  have m0: "\<forall>q\<le>100. mem ?v q = exampleMem q" and h0: "100 \<le> heapTop ?v" using st by simp_all
  have gs: "Dict_getString ?args ''file'' = Some ''net.c''" "Dict_getString ?args ''level'' = None"
    "Dict_getInt ?args ''line'' = None"
    by (simp_all add: Dict_getString_def Dict_getInt_def)
  have acc: "subscribeAccepts ?args ?v" by (simp add: subscribeAccepts_def gs c0 MAX_SUBSCRIPTIONS_def)
  have cs: "cstring ''net.c'' = ''net.c''" by (simp add: cstring_def)
  have e1: "exampleMem 1 = ''net.c''" by (simp add: exampleMem_def)
  have noname1: "fileNames (adminLog ?v) j = NULL \<or> mem ?v (fileNames (adminLog ?v) j) \<noteq> ''net.c''"
    if "j < FILENAME_COUNT" for j
  proof (cases "j = 0")
    case True
    then show ?thesis using tbl that by simp
  next
    case False
    then have f: "fileNames (adminLog ?v) j = j + 1" using tbl that by simp
    have m: "mem ?v (j + 1) = exampleMem (j + 1)" using m0 that by (simp add: FILENAME_COUNT_def)
    have "exampleMem (j + 1) \<noteq> exampleMem 1"
      using exampleMem_distinct[of "j + 1" 1] False that by (auto simp: FILENAME_COUNT_def)
    then show ?thesis using f m e1 by simp
  qed
  have noname: "\<forall>j<FILENAME_COUNT. fileNames (adminLog ?v) j = NULL
                  \<or> mem ?v (fileNames (adminLog ?v) j) \<noteq> ''net.c''"
    using noname1 by blast
  have c: "subscriptionCount (adminLog ?w) = 2" using subscribe_accepted_count[OF acc] c0 by simp
  have sub0: "subscriptions (adminLog ?w) 0 = subscriptions (adminLog ?v) 0"
    using subscribe_accepted_others[OF acc, of 0] c0 by simp
  have file1: "\<not> internalName (subscriptions (adminLog ?w) 1)
      \<and> filePtr (subscriptions (adminLog ?w) 1) = heapTop ?v + 1
      \<and> mem ?w = (mem ?v)(heapTop ?v + 1 := ''net.c'')"
    using subscribe_accepted_file[OF acc, of "''tB''" 600] noname
    by (auto simp: gs c0 cs)
  have ll1: "level (subscriptions (adminLog ?w) 1) = Log_Level_DEBUG
      \<and> lineNum (subscriptions (adminLog ?w) 1) = 0"
    using subscribe_accepted_frame[OF acc, of "''tB''" 600] by (simp add: gs c0)
  have a: "internalName (subscriptions (adminLog ?w) 0) \<and> filePtr (subscriptions (adminLog ?w) 0) = 1
      \<and> level (subscriptions (adminLog ?w) 0) = Log_Level_DEBUG
      \<and> lineNum (subscriptions (adminLog ?w) 0) = 0"
    unfolding sub0 using st by simp
  have memw: "mem ?w = (mem ?v)(heapTop ?v + 1 := ''net.c'')" using file1 by blast
  have fp1: "filePtr (subscriptions (adminLog ?w) 1) = heapTop ?v + 1" using file1 by blast
  have ni1: "\<not> internalName (subscriptions (adminLog ?w) 1)" using file1 by blast
  have hne: "heapTop ?v + 1 \<noteq> 1" "heapTop ?v + 1 \<noteq> 33" "heapTop ?v + 1 \<noteq> NULL"
    using h0 by (simp_all add: NULL_def)
  have "mem ?w 1 = mem ?v 1" unfolding memw using hne by simp
  also have "\<dots> = exampleMem 1" using m0 by simp
  finally have mem1: "mem ?w 1 = ''net.c''" by (simp only: e1)
  have "mem ?w 33 = mem ?v 33" unfolding memw using hne by simp
  also have "\<dots> = exampleMem 33" using m0 by simp
  finally have mem33: "mem ?w 33 = ''net.c''" by (simp add: exampleMem_def)
  have memB: "mem ?w (heapTop ?v + 1) = ''net.c''" unfolding memw by simp
  have memB': "mem ?w (filePtr (subscriptions (adminLog ?w) 1)) = ''net.c''" unfolding fp1 by (rule memB)
  have n1: "filePtr (subscriptions (adminLog ?w) 1) \<noteq> NULL" unfolding fp1 by (rule hne)
  show ?thesis unfolding run using c a ni1 n1 memB' mem1 mem33 ll1 by blast
qed

lemma wrapAround_events:
  "\<forall>c\<in>set (wrapAround @ [Subscribe [(''file'', String_OBJ ''net.c'')] ''tB'' 600]).
      \<forall>lv f ln msg sn. c = DoLog lv f ln msg sn \<longrightarrow> f \<in> {1..32}"
  by (auto simp: wrapAround_def cycleCalls_def)

theorem same_filter_same_verdict_witness:
  "fst (isMatch (mem afterWrapAround) (subscriptions (adminLog afterWrapAround) 0)
          (fileNames (adminLog afterWrapAround)) Log_Level_ERROR 1 7)
   = fst (isMatch (mem afterWrapAround) (subscriptions (adminLog afterWrapAround) 1)
          (fileNames (adminLog afterWrapAround)) Log_Level_ERROR 1 7)"
proof -
  let ?cs = "wrapAround @ [Subscribe [(''file'', String_OBJ ''net.c'')] ''tB'' 600]"
  have w: "afterWrapAround = run ?cs (AdminLog_registerNew exampleMem 100 (\<lambda>k. 1000 + int k))"
    by (simp only: afterWrapAround_def exampleWorld_def)
  note st = afterWrapAround_state[unfolded w]
  have n1: "\<forall>p\<in>{1..32}. p \<le> (100 :: nat)" by simp
  have n2: "\<forall>p\<in>{1..32}. \<forall>q\<in>{1..32}. exampleMem p = exampleMem q \<longrightarrow> p = q"
    using exampleMem_distinct by auto
  have ev: "(1 :: nat) \<in> {1..32}" by simp
  let ?w = "run ?cs (AdminLog_registerNew exampleMem 100 (\<lambda>k. 1000 + int k))"
  have l0: "0 < subscriptionCount (adminLog ?w)" and l1: "1 < subscriptionCount (adminLog ?w)"
    using st by simp_all
  have t: "(filePtr (subscriptions (adminLog ?w) 0) = NULL \<and> filePtr (subscriptions (adminLog ?w) 1) = NULL)
        \<or> (filePtr (subscriptions (adminLog ?w) 0) \<noteq> NULL \<and> filePtr (subscriptions (adminLog ?w) 1) \<noteq> NULL
           \<and> mem ?w (filePtr (subscriptions (adminLog ?w) 0)) = mem ?w (filePtr (subscriptions (adminLog ?w) 1)))"
    using st by (simp add: NULL_def)
  have lv: "level (subscriptions (adminLog ?w) 0) = level (subscriptions (adminLog ?w) 1)"
    and li: "lineNum (subscriptions (adminLog ?w) 0) = lineNum (subscriptions (adminLog ?w) 1)"
    using st by simp_all
  show ?thesis unfolding w
    by (rule same_filter_same_verdict[OF n1 n2 wrapAround_events ev l0 l1 t lv li])
qed

text \<open>
  C8 as stated fails when the same file name stands at two addresses. After the calls of
  \<open>wrapAround\<close> and one more \<open>subscribe\<close>, two live subscriptions filter on \<open>net.c\<close> with
  the same level and line; the first compares pointers and holds address 1, the second
  compares content. An event whose file is \<open>net.c\<close> at address 33 is rejected by the
  first and accepted by the second.
\<close>

theorem same_filter_different_verdict:
  "subscriptionCount (adminLog afterWrapAround) = 2
   \<and> filePtr (subscriptions (adminLog afterWrapAround) 0) \<noteq> NULL
   \<and> filePtr (subscriptions (adminLog afterWrapAround) 1) \<noteq> NULL
   \<and> mem afterWrapAround (filePtr (subscriptions (adminLog afterWrapAround) 0))
        = mem afterWrapAround (filePtr (subscriptions (adminLog afterWrapAround) 1))
   \<and> level (subscriptions (adminLog afterWrapAround) 0) = level (subscriptions (adminLog afterWrapAround) 1)
   \<and> lineNum (subscriptions (adminLog afterWrapAround) 0) = lineNum (subscriptions (adminLog afterWrapAround) 1)
   \<and> \<not> fst (isMatch (mem afterWrapAround) (subscriptions (adminLog afterWrapAround) 0)
              (fileNames (adminLog afterWrapAround)) Log_Level_ERROR 33 5)
   \<and> fst (isMatch (mem afterWrapAround) (subscriptions (adminLog afterWrapAround) 1)
              (fileNames (adminLog afterWrapAround)) Log_Level_ERROR 33 5)"
  using afterWrapAround_state by (simp add: isMatch_fst NULL_def)

end

